theory Spec2Isabelle
  imports Main "HOL-Library.Word"
begin

unbundle bit_operations_syntax

section \<open>regview.c: machine types and the byte source\<close>

text \<open>
  The program is modelled for the platform it was written for: little-endian, 8-bit
  bytes, 16-bit \<open>short\<close>, 32-bit \<open>int\<close> and \<open>unsigned\<close>, 64-bit \<open>long\<close>, \<open>long long\<close>
  and \<open>size_t\<close>. Signed values are held as words and read with \<open>sint\<close>. The hive
  file is an immutable list of bytes; a read past its end is short, and no read fails
  for any other reason.
\<close>

type_synonym byte = "8 word"
type_synonym u16 = "16 word"
type_synonym u32 = "32 word"
type_synonym u64 = "64 word"

text \<open>A little-endian 16-bit and 32-bit value made of the bytes at its address.\<close>

definition le16 :: "byte \<Rightarrow> byte \<Rightarrow> u16" where
  "le16 b0 b1 = ucast b0 OR push_bit 8 (ucast b1)"

definition le32 :: "byte \<Rightarrow> byte \<Rightarrow> byte \<Rightarrow> byte \<Rightarrow> u32" where
  "le32 b0 b1 b2 b3 =
     ucast b0 OR push_bit 8 (ucast b1) OR push_bit 16 (ucast b2) OR push_bit 24 (ucast b3)"

definition u16_at :: "byte list \<Rightarrow> nat \<Rightarrow> u16" where
  "u16_at m i = le16 (m ! i) (m ! (i + 1))"

definition u32_at :: "byte list \<Rightarrow> nat \<Rightarrow> u32" where
  "u32_at m i = le32 (m ! i) (m ! (i + 1)) (m ! (i + 2)) (m ! (i + 3))"

subsection \<open>convOff (lines 19-21)\<close>

text \<open>\<open>uint32_t convOff(unsigned int off) { return off + 0x1000 + 4; }\<close>: the sum wraps
  at 32 bits.\<close>

definition convOff :: "u32 \<Rightarrow> u32" where
  "convOff off = off + 0x1000 + 4"

subsection \<open>WindowsTickToUnixSeconds (lines 92-98)\<close>

text \<open>
  \<open>return (unsigned)(windowsTicks / WINDOWS_TICK - SEC_TO_UNIX_EPOCH);\<close>
  The quotient is a \<open>uint64_t\<close>; subtracting the \<open>long long\<close> constant converts it to
  \<open>uint64_t\<close> as well, so the difference wraps at 64 bits, and the cast keeps its low
  32 bits.
\<close>

definition WINDOWS_TICK :: u64 where
  "WINDOWS_TICK = 10000000"

definition SEC_TO_UNIX_EPOCH :: u64 where
  "SEC_TO_UNIX_EPOCH = 11644473600"

definition WindowsTickToUnixSeconds :: "u64 \<Rightarrow> u32" where
  "WindowsTickToUnixSeconds windowsTicks =
     ucast (windowsTicks div WINDOWS_TICK - SEC_TO_UNIX_EPOCH)"

section \<open>Output, outcomes and the allocator\<close>

text \<open>
  What the program prints is a list of events, one for each \<open>printf\<close> of the modelled
  functions (messages are held without their trailing newline):
  \<^item> \<open>KeyName tabs name\<close>: the line of \<open>printNKName\<close>, \<open>tabs\<close> spaces and the name;
  \<^item> \<open>Indent tabs\<close>: the spaces alone, when \<open>printNKName\<close> exits before the name;
  \<^item> \<open>Warn a b\<close>: \<open>WARN: number of subkeys does not match, a != b\<close>;
  \<^item> \<open>Msg s\<close>: any other fixed line.
  \<open>perror\<close> is only called under \<open>ferror\<close>, which never holds for this byte source.
\<close>

datatype event = KeyName nat "byte list" | Indent nat | Warn int int | Msg string

text \<open>
  How a piece of the program ends: it completes with a value, it calls \<open>exit\<close>, it uses
  an object whose value the C standard leaves indeterminate (a buffer that no read
  filled, an element read in part, storage outside an allocation, a null pointer), or
  the model's fuel runs out (the recursion or loop is still going).
\<close>

datatype 'a outcome = Done 'a | Exit int | Undefined | OutOfFuel

type_synonym run = "event list \<times> unit outcome"

text \<open>Sequential composition: the second part runs only when the first completes.\<close>

definition then_do :: "run \<Rightarrow> run \<Rightarrow> run" where
  "then_do a b = (case snd a of Done u \<Rightarrow> (fst a @ fst b, snd b) | st \<Rightarrow> (fst a, st))"

text \<open>
  \<open>malloc\<close> and \<open>realloc\<close> are a parameter \<open>heap\<close> of the model: \<open>heap n\<close> holds when
  a request for \<open>n\<close> bytes returns a non-null pointer. Whether \<open>malloc(0)\<close> does is
  implementation-defined, and a request near \<open>2^64\<close> bytes is refused by every real
  allocator; the program tests the pointer in most places, so both cases are branches
  of the model.
\<close>

type_synonym heap = "nat \<Rightarrow> bool"

text \<open>The product \<open>n * size\<close> of a \<open>short\<close> and a \<open>size_t\<close>: \<open>n\<close> is sign-extended to
  64 bits and the product wraps.\<close>

definition alloc_size :: "u16 \<Rightarrow> nat \<Rightarrow> nat" where
  "alloc_size n sz = unat ((scast n :: u64) * of_nat sz)"

subsection \<open>Reading the file\<close>

text \<open>
  \<open>fread(ptr, size, nmemb, regf)\<close> at position \<open>pos\<close>: the complete elements it
  delivers. \<open>nmemb\<close> is a \<open>short\<close> converted to \<open>size_t\<close>, so a negative count asks
  for more elements than any file holds.
\<close>

fun chop :: "nat \<Rightarrow> nat \<Rightarrow> byte list \<Rightarrow> byte list list" where
  "chop sz 0 bs = []"
| "chop sz (Suc k) bs = take sz bs # chop sz k (drop sz bs)"

definition fread_items :: "byte list \<Rightarrow> nat \<Rightarrow> nat \<Rightarrow> u16 \<Rightarrow> byte list list" where
  "fread_items regf pos sz nmemb =
     chop sz (min (unat (scast nmemb :: u64)) ((length regf - pos) div sz)) (drop pos regf)"

subsection \<open>The structures (lines 7-90)\<close>

record FILETIME =
  dwLowDateTime :: u32
  dwHighDateTime :: u32

text \<open>\<open>struct nk_cell\<close>, 80 bytes with \<open>name\<close> at offset 76; the field at each offset is
  given in \<open>NK_of\<close>. \<open>nk_name\<close> holds the \<open>name_len\<close> bytes that follow offset 76.\<close>

record NK =
  nk_signature :: "byte list"
  nk_type :: u16
  nk_modified :: FILETIME
  nk_u1 :: u32
  nk_parent :: u32
  nk_num_subkeys :: u32
  nk_u2 :: u32
  nk_subkeys :: u32
  nk_u3 :: u32
  nk_num_values :: u32
  nk_values :: u32
  nk_security :: u32
  nk_classname :: u32
  nk_u4 :: "u32 list"
  nk_name_len :: u16
  nk_classname_len :: u16
  nk_name :: "byte list"

definition NK_of :: "byte list \<Rightarrow> NK" where
  "NK_of m =
     \<lparr> nk_signature = take 2 m,
       nk_type = u16_at m 2,
       nk_modified = \<lparr> dwLowDateTime = u32_at m 4, dwHighDateTime = u32_at m 8 \<rparr>,
       nk_u1 = u32_at m 12,
       nk_parent = u32_at m 16,
       nk_num_subkeys = u32_at m 20,
       nk_u2 = u32_at m 24,
       nk_subkeys = u32_at m 28,
       nk_u3 = u32_at m 32,
       nk_num_values = u32_at m 36,
       nk_values = u32_at m 40,
       nk_security = u32_at m 44,
       nk_classname = u32_at m 48,
       nk_u4 = [u32_at m 52, u32_at m 56, u32_at m 60, u32_at m 64, u32_at m 68],
       nk_name_len = u16_at m 72,
       nk_classname_len = u16_at m 74,
       nk_name = take (unat (u16_at m 72)) (drop 76 m) \<rparr>"

text \<open>\<open>struct lh_cell\<close> (also read for \<open>ri\<close> and \<open>li\<close> records) and \<open>struct hashrec\<close>.\<close>

record LH =
  lh_signature :: "byte list"
  lh_num_entries :: u16

record HashRec =
  hr_offset :: u32
  hr_hash :: "byte list"

definition HashRec_of :: "byte list \<Rightarrow> HashRec" where
  "HashRec_of m = \<lparr> hr_offset = u32_at m 0, hr_hash = take 4 (drop 4 m) \<rparr>"

text \<open>The signatures the program compares with, as bytes: \<open>lh\<close>, \<open>lf\<close>, \<open>ri\<close>, \<open>li\<close>,
  \<open>nk\<close>, \<open>hbin\<close>, \<open>regf\<close>. None holds a NUL, so \<open>strncmp\<close> over their length is 0 exactly
  when the bytes are equal.\<close>

definition sig_lh :: "byte list" where "sig_lh = [0x6C, 0x68]"
definition sig_lf :: "byte list" where "sig_lf = [0x6C, 0x66]"
definition sig_ri :: "byte list" where "sig_ri = [0x72, 0x69]"
definition sig_li :: "byte list" where "sig_li = [0x6C, 0x69]"
definition sig_hbin :: "byte list" where "sig_hbin = [0x68, 0x62, 0x69, 0x6E]"
definition sig_regf :: "byte list" where "sig_regf = [0x72, 0x65, 0x67, 0x66]"

definition NK_ROOT :: int where "NK_ROOT = 0x2c"

text \<open>
  \<open>fseek(regf, pos, SEEK_SET); fread(&lh, sizeof(LH), 1, regf);\<close> (lines 152-155 and
  223-226). The result of \<open>fread\<close> is not tested: when fewer than 4 bytes are left,
  \<open>lh\<close> is an uninitialised local or an element read in part, and the \<open>strncmp\<close> that
  follows uses it (\<open>None\<close>).
\<close>

definition fread_LH :: "byte list \<Rightarrow> nat \<Rightarrow> LH option" where
  "fread_LH regf pos =
     (let m = take 4 (drop pos regf) in
      if length m < 4 then None
      else Some \<lparr> lh_signature = take 2 m, lh_num_entries = u16_at m 2 \<rparr>)"

text \<open>
  Lines 192-200 (and 253-261, 287-295), after \<open>next\<close> was allocated:
  \<^verbatim>\<open>
  fseek(regf, pos, SEEK_SET);
  fread(next, sizeof(NK), 1, regf);
  int full_nk_size = sizeof(NK) + next->name_len - 1;
  next = (NK *)realloc(next, full_nk_size);
  fseek(regf, pos, SEEK_SET);
  fread(next, full_nk_size, 1, regf);
  \<close>
  No result is tested. \<open>None\<close> stands for the three ways the node handed to
  \<open>printSubTree\<close> is not determined by the file: the first read is short (\<open>name_len\<close>
  is read from a buffer that was not filled), \<open>realloc\<close> returns null (the second
  \<open>fread\<close> writes through it), or the second read is short (an element read in part).
\<close>

definition fread_NK :: "heap \<Rightarrow> byte list \<Rightarrow> nat \<Rightarrow> NK option" where
  "fread_NK heap regf pos =
     (let first = take 80 (drop pos regf) in
      if length first < 80 then None
      else
        let full_nk_size = 80 + unat (u16_at first 72) - 1 in
        if \<not> heap full_nk_size then None
        else
          let m = take full_nk_size (drop pos regf) in
          if length m < full_nk_size then None else Some (NK_of m))"

section \<open>printNKName and printSubTree (lines 127-316)\<close>

text \<open>
  \<open>printNKName\<close>: the spaces are printed first; then \<open>malloc(name_len + 1)\<close>, with
  \<open>exit(1)\<close> on null; \<open>strncpy\<close> stops at the first NUL of the name, and \<open>%s\<close> prints
  up to there.
\<close>

definition printNKName :: "heap \<Rightarrow> NK \<Rightarrow> nat \<Rightarrow> run" where
  "printNKName heap nodeKey tabs =
     (if \<not> heap (unat (nk_name_len nodeKey) + 1) then ([Indent tabs], Exit 1)
      else ([KeyName tabs (takeWhile (\<lambda>b. b \<noteq> 0) (nk_name nodeKey))], Done ()))"

text \<open>
  The body of the three loops over key-node offsets (lines 187-205, 248-266 and
  282-300), which differ only in the exit code when \<open>malloc(sizeof(NK))\<close> fails: 0 on
  line 190, 1 on lines 251 and 285. \<open>rec\<close> is the recursive call
  \<open>printSubTree(next, regf, level+1)\<close>. Each offset is sought from the start of the file,
  so the loop does not depend on where the previous iteration left the file position.
\<close>

fun nk_loop :: "int \<Rightarrow> (NK \<Rightarrow> run) \<Rightarrow> heap \<Rightarrow> byte list \<Rightarrow> u32 list \<Rightarrow> run" where
  "nk_loop code rec heap regf [] = ([], Done ())"
| "nk_loop code rec heap regf (off # offs) =
     (if \<not> heap 80 then ([], Exit code)
      else
        case fread_NK heap regf (unat (convOff off)) of
          None \<Rightarrow> ([], Undefined)
        | Some next \<Rightarrow> then_do (rec next) (nk_loop code rec heap regf offs))"

text \<open>
  An array of \<open>sz\<close>-byte elements read after a 4-byte list header at \<open>pos\<close>, as on lines
  165-178, 210-221, 231-243 and 270-280: \<open>malloc(num_entries * sz)\<close> with \<open>exit(1)\<close> on
  null, then \<open>fread\<close>, with the EOF message and \<open>exit(1)\<close> when \<open>nread < num_entries\<close>
  (compared as \<open>int\<close>). The loop that follows runs over \<open>i < num_entries\<close>: over no element
  when the count is negative.
\<close>

definition fread_array ::
  "heap \<Rightarrow> byte list \<Rightarrow> nat \<Rightarrow> nat \<Rightarrow> u16 \<Rightarrow> event list \<times> byte list list outcome" where
  "fread_array heap regf pos sz num_entries =
     (if \<not> heap (alloc_size num_entries sz) then ([], Exit 1)
      else
        let items = fread_items regf (pos + 4) sz num_entries in
        if int (length items) < sint num_entries
        then ([Msg ''Unexpected EOF while reading file.''], Exit 1)
        else ([], Done (take (nat (sint num_entries)) items)))"

text \<open>The loop over the entries of an \<open>ri\<close> record (lines 222-308).\<close>

fun ri_loop :: "(NK \<Rightarrow> run) \<Rightarrow> heap \<Rightarrow> byte list \<Rightarrow> u32 list \<Rightarrow> run" where
  "ri_loop rec heap regf [] = ([], Done ())"
| "ri_loop rec heap regf (li_offset # li_offsets) =
     (case fread_LH regf (unat (convOff li_offset)) of
        None \<Rightarrow> ([], Undefined)
      | Some lh2 \<Rightarrow>
          if lh_signature lh2 = sig_lh \<or> lh_signature lh2 = sig_lf then
            (case fread_array heap regf (unat (convOff li_offset)) 8 (lh_num_entries lh2) of
               (out, Done hashes) \<Rightarrow>
                 then_do (out, Done ())
                   (then_do (nk_loop 1 rec heap regf (map (\<lambda>h. hr_offset (HashRec_of h)) hashes))
                      (ri_loop rec heap regf li_offsets))
             | (out, Exit c) \<Rightarrow> (out, Exit c)
             | (out, Undefined) \<Rightarrow> (out, Undefined)
             | (out, OutOfFuel) \<Rightarrow> (out, OutOfFuel))
          else if lh_signature lh2 = sig_li then
            (case fread_array heap regf (unat (convOff li_offset)) 4 (lh_num_entries lh2) of
               (out, Done nk_offsets) \<Rightarrow>
                 then_do (out, Done ())
                   (then_do (nk_loop 1 rec heap regf (map (\<lambda>e. u32_at e 0) nk_offsets))
                      (ri_loop rec heap regf li_offsets))
             | (out, Exit c) \<Rightarrow> (out, Exit c)
             | (out, Undefined) \<Rightarrow> (out, Undefined)
             | (out, OutOfFuel) \<Rightarrow> (out, OutOfFuel))
          else ([Msg ''Fatal: encountered unknown subentry of ri list''], Exit 1))"

text \<open>
  \<open>printSubTree\<close>. The C function recurses with no bound of its own; the model takes
  fuel, one unit for each nesting level, and \<open>OutOfFuel\<close> says that the recursion went
  deeper than the fuel given.
\<close>

fun printSubTree :: "nat \<Rightarrow> heap \<Rightarrow> byte list \<Rightarrow> NK \<Rightarrow> nat \<Rightarrow> run" where
  "printSubTree 0 heap regf root level = ([], OutOfFuel)"
| "printSubTree (Suc fuel) heap regf root level =
     then_do (printNKName heap root level)
       (if nk_num_subkeys root = 0 \<or> nk_subkeys root = 0 \<or> nk_subkeys root = 0xFFFFFFFF
        then ([], Done ())
        else
          case fread_LH regf (unat (convOff (nk_subkeys root))) of
            None \<Rightarrow> ([], Undefined)
          | Some lh \<Rightarrow>
              if lh_signature lh = sig_lh \<or> lh_signature lh = sig_lf then
                if sint (lh_num_entries lh) < 0 then ([], Exit 1)
                else
                  then_do
                    (if sint (nk_num_subkeys root) \<noteq> sint (lh_num_entries lh)
                     then ([Warn (sint (nk_num_subkeys root)) (sint (lh_num_entries lh))], Done ())
                     else ([], Done ()))
                    (case fread_array heap regf (unat (convOff (nk_subkeys root))) 8
                            (lh_num_entries lh) of
                       (out, Done hashes) \<Rightarrow>
                         then_do (out, Done ())
                           (nk_loop 0 (\<lambda>next. printSubTree fuel heap regf next (level + 1))
                              heap regf (map (\<lambda>h. hr_offset (HashRec_of h)) hashes))
                     | (out, Exit c) \<Rightarrow> (out, Exit c)
                     | (out, Undefined) \<Rightarrow> (out, Undefined)
                     | (out, OutOfFuel) \<Rightarrow> (out, OutOfFuel))
              else if lh_signature lh = sig_ri then
                (case fread_array heap regf (unat (convOff (nk_subkeys root))) 4
                        (lh_num_entries lh) of
                   (out, Done li_offsets) \<Rightarrow>
                     then_do (out, Done ())
                       (ri_loop (\<lambda>next. printSubTree fuel heap regf next (level + 1))
                          heap regf (map (\<lambda>e. u32_at e 0) li_offsets))
                 | (out, Exit c) \<Rightarrow> (out, Exit c)
                 | (out, Undefined) \<Rightarrow> (out, Undefined)
                 | (out, OutOfFuel) \<Rightarrow> (out, OutOfFuel))
              else ([Msg ''Fatal: encountered unknown subkey type''], Exit 1))"

section \<open>validHeader (lines 318-339)\<close>

text \<open>
  The argument is the 512 bytes of a \<open>HiveHeader\<close>. The loop
  \<^verbatim>\<open>for (int i = 0; i < sizeof(HiveHeader)-4; i += 4) { cksum ^= *cur; cur++; }\<close>
  reads the word at byte offset \<open>i\<close>; the \<open>checksum\<close> field is the word at offset 508.
  The result is what was printed and the value returned.
\<close>

function cksum_loop :: "byte list \<Rightarrow> nat \<Rightarrow> u32 \<Rightarrow> u32" where
  "cksum_loop hdr i cksum =
     (if i < 512 - 4 then cksum_loop hdr (i + 4) (cksum XOR u32_at hdr i) else cksum)"
  by pat_completeness auto
termination
  by (relation "measure (\<lambda>(hdr, i, cksum). 508 - i)") auto

declare cksum_loop.simps [simp del]

definition validHeader :: "byte list \<Rightarrow> event list \<times> int" where
  "validHeader hdr =
     (if take 4 hdr \<noteq> sig_regf then ([Msg ''Invalid header.''], 0)
      else if cksum_loop hdr 0 0 \<noteq> u32_at hdr 508 then ([Msg ''Bad checksum.''], 0)
      else ([], 1))"

section \<open>The search for the root cell in main (lines 367-407)\<close>

text \<open>
  The state of the loop: the file position, the variable \<open>cell_size\<close>, and the block
  header \<open>bh\<close> (\<open>None\<close> while it is uninitialised or was read in part). No \<open>fread\<close> of
  the loop has its result tested; one that reads nothing leaves its buffer as it was.
\<close>

record scan =
  sc_pos :: nat
  sc_cell_size :: u32
  sc_bh :: "byte list option"

text \<open>Lines 367-373: \<open>fseek(regf, 0x1000, SEEK_SET); fread(&bh, sizeof(BlockHeader), 1, regf);
  int cell_size = -1;\<close>\<close>

definition scan_start :: "byte list \<Rightarrow> scan" where
  "scan_start regf =
     (let m = take 32 (drop 0x1000 regf) in
      \<lparr> sc_pos = 0x1000 + length m, sc_cell_size = - 1,
        sc_bh = (if length m < 32 then None else Some m) \<rparr>)"

text \<open>Lines 379-385: at a page boundary a block header is read, and the position is
  restored when its signature is not \<open>hbin\<close>. \<open>None\<close>: the signature compared is
  indeterminate.\<close>

definition skip_hbin :: "byte list \<Rightarrow> scan \<Rightarrow> scan option" where
  "skip_hbin regf s =
     (if sc_pos s mod 0x1000 = 0 then
        let m = take 32 (drop (sc_pos s) regf);
            bh = (if m = [] then sc_bh s else if length m < 32 then None else Some m)
        in case bh of
             None \<Rightarrow> None
           | Some b \<Rightarrow>
               Some (s\<lparr> sc_pos := (if take 4 b \<noteq> sig_hbin then sc_pos s
                                    else sc_pos s + length m),
                        sc_bh := bh \<rparr>)
      else Some s)"

text \<open>Line 387: \<open>fread(&cell_size, sizeof(int), 1, regf);\<close> At the end of the file the
  variable keeps the value of the previous iteration.\<close>

definition fread_cell_size :: "byte list \<Rightarrow> scan \<Rightarrow> scan option" where
  "fread_cell_size regf s =
     (let m = take 4 (drop (sc_pos s) regf) in
      if m = [] then Some s
      else if length m < 4 then None
      else Some (s\<lparr> sc_pos := sc_pos s + 4, sc_cell_size := u32_at m 0 \<rparr>))"

text \<open>Line 393: \<open>int32_t cell_size_real = (-1*cell_size) - sizeof(int);\<close> in 32-bit
  two's complement.\<close>

definition cell_size_real :: "u32 \<Rightarrow> u32" where
  "cell_size_real cell_size = (- 1 * cell_size) - 4"

text \<open>Line 398: \<open>strncmp(buf, "nk", 2)\<close> on a buffer holding the bytes \<open>buf\<close>; \<open>Some True\<close>
  when it returns 0, \<open>None\<close> when it reads past the buffer.\<close>

definition strncmp_nk :: "byte list \<Rightarrow> bool option" where
  "strncmp_nk buf =
     (case buf of
        [] \<Rightarrow> None
      | b0 # rest \<Rightarrow>
          if b0 \<noteq> 0x6E then Some False
          else (case rest of [] \<Rightarrow> None | b1 # _ \<Rightarrow> Some (b1 = 0x6B)))"

text \<open>The loop of lines 375-407; the result is the buffer \<open>root\<close> points to. One unit of
  fuel is one iteration.\<close>

fun find_root :: "nat \<Rightarrow> heap \<Rightarrow> byte list \<Rightarrow> scan \<Rightarrow> byte list outcome" where
  "find_root 0 heap regf s = OutOfFuel"
| "find_root (Suc fuel) heap regf s =
     (case skip_hbin regf s of
        None \<Rightarrow> Undefined
      | Some s1 \<Rightarrow>
          case fread_cell_size regf s1 of
            None \<Rightarrow> Undefined
          | Some s2 \<Rightarrow>
              if sint (cell_size_real (sc_cell_size s2)) < 0
                 \<or> sint (cell_size_real (sc_cell_size s2)) > 0x1000 then Exit 1
              else if \<not> heap (unat (cell_size_real (sc_cell_size s2))) then Exit 1
              else
                let buf = take (unat (cell_size_real (sc_cell_size s2))) (drop (sc_pos s2) regf);
                    s3 = s2\<lparr> sc_pos := sc_pos s2 + length buf \<rparr>
                in
                  if length buf < unat (cell_size_real (sc_cell_size s2)) then Undefined
                  else
                    case strncmp_nk buf of
                      None \<Rightarrow> Undefined
                    | Some False \<Rightarrow> find_root fuel heap regf s3
                    | Some True \<Rightarrow>
                        if length buf < 4 then Undefined
                        else if sint (u16_at buf 2) = NK_ROOT then Done buf
                        else find_root fuel heap regf s3)"

section \<open>Definitions used to state the properties\<close>

subsection \<open>The header checksum in the words of the specification\<close>

text \<open>The 127 four-byte words that precede the checksum field, and the XOR of a list
  of words.\<close>

definition header_words :: "byte list \<Rightarrow> u32 list" where
  "header_words hdr = map (\<lambda>k. u32_at hdr (4 * k)) [0..<127]"

definition xor_all :: "u32 list \<Rightarrow> u32" where
  "xor_all ws = foldr (XOR) ws 0"

text \<open>A header that validates: the signature, zeros, and the checksum of both.\<close>

definition valid_header :: "byte list" where
  "valid_header = sig_regf @ replicate 504 0 @ sig_regf"

subsection \<open>Example hives\<close>

text \<open>A hive file: the header page (a valid header padded to \<open>0x1000\<close> bytes), the
  32-byte header of the first \<open>hbin\<close> block, and the cells given. The relative offset of
  the first cell's length field is \<open>0x20\<close>.\<close>

definition header_page :: "byte list" where
  "header_page = valid_header @ replicate 3584 0"

definition hbin_header :: "byte list" where
  "hbin_header = sig_hbin @ replicate 28 0"

definition hive :: "byte list \<Rightarrow> byte list" where
  "hive cells = header_page @ hbin_header @ cells"

text \<open>An allocator that grants every request, and one that grants what fits \<open>PTRDIFF_MAX\<close>.\<close>

definition heap_all :: heap where
  "heap_all n = True"

definition heap_ptrdiff :: heap where
  "heap_ptrdiff n = (n < 2 ^ 63)"

text \<open>One allocated cell of 4 data bytes (stored length \<open>-8\<close>) that is not a key node,
  and nothing after it.\<close>

definition exhausted_hive :: "byte list" where
  "exhausted_hive = hive [0xF8, 0xFF, 0xFF, 0xFF, 0x61, 0x62, 0x63, 0x64]"

text \<open>A cell with stored length \<open>-4\<close>: real length 0.\<close>

definition empty_cell_hive :: "byte list" where
  "empty_cell_hive = hive [0xFC, 0xFF, 0xFF, 0xFF]"

text \<open>A free cell of 8 bytes (stored length \<open>8\<close>), and one of stored length \<open>-4200\<close>.\<close>

definition free_cell_hive :: "byte list" where
  "free_cell_hive = hive [0x08, 0x00, 0x00, 0x00, 0x00, 0x00, 0x00, 0x00]"

definition long_cell_hive :: "byte list" where
  "long_cell_hive = hive [0x98, 0xEF, 0xFF, 0xFF, 0x00, 0x00, 0x00, 0x00]"

subsection \<open>The subkeys of a key node\<close>

text \<open>
  The key nodes that a node's subkey index lists, in the order of the index: the targets
  of a directly referenced \<open>lh\<close>/\<open>lf\<close> list, or, for an \<open>ri\<close> record, the targets of each
  \<open>lh\<close>/\<open>lf\<close>/\<open>li\<close> list it refers to, one list after the other. An index, list or node
  that cannot be read contributes nothing; the walk that meets one ends in \<open>Undefined\<close>
  or in \<open>Exit\<close>, so these are the subkeys of every walk that goes on.
\<close>

definition is_leaf :: "NK \<Rightarrow> bool" where
  "is_leaf k \<longleftrightarrow> nk_num_subkeys k = 0 \<or> nk_subkeys k = 0 \<or> nk_subkeys k = 0xFFFFFFFF"

definition list_offsets :: "heap \<Rightarrow> byte list \<Rightarrow> nat \<Rightarrow> nat \<Rightarrow> u16 \<Rightarrow> u32 list" where
  "list_offsets heap regf pos sz n =
     (case snd (fread_array heap regf pos sz n) of
        Done items \<Rightarrow> map (\<lambda>e. u32_at e 0) items
      | _ \<Rightarrow> [])"

definition secondary_offsets :: "heap \<Rightarrow> byte list \<Rightarrow> u32 \<Rightarrow> u32 list" where
  "secondary_offsets heap regf li_offset =
     (case fread_LH regf (unat (convOff li_offset)) of
        None \<Rightarrow> []
      | Some lh2 \<Rightarrow>
          if lh_signature lh2 = sig_lh \<or> lh_signature lh2 = sig_lf
          then list_offsets heap regf (unat (convOff li_offset)) 8 (lh_num_entries lh2)
          else if lh_signature lh2 = sig_li
          then list_offsets heap regf (unat (convOff li_offset)) 4 (lh_num_entries lh2)
          else [])"

definition subkey_offsets :: "heap \<Rightarrow> byte list \<Rightarrow> NK \<Rightarrow> u32 list" where
  "subkey_offsets heap regf root =
     (if is_leaf root then []
      else
        case fread_LH regf (unat (convOff (nk_subkeys root))) of
          None \<Rightarrow> []
        | Some lh \<Rightarrow>
            if lh_signature lh = sig_lh \<or> lh_signature lh = sig_lf then
              if sint (lh_num_entries lh) < 0 then []
              else list_offsets heap regf (unat (convOff (nk_subkeys root))) 8 (lh_num_entries lh)
            else if lh_signature lh = sig_ri then
              concat (map (secondary_offsets heap regf)
                (list_offsets heap regf (unat (convOff (nk_subkeys root))) 4 (lh_num_entries lh)))
            else [])"

definition subkeys_of :: "heap \<Rightarrow> byte list \<Rightarrow> NK \<Rightarrow> NK list" where
  "subkeys_of heap regf root =
     List.map_filter (\<lambda>off. fread_NK heap regf (unat (convOff off)))
       (subkey_offsets heap regf root)"

text \<open>The subkey relation, and the lines of key names among the events of a run.\<close>

definition subkey :: "heap \<Rightarrow> byte list \<Rightarrow> NK \<Rightarrow> NK \<Rightarrow> bool" where
  "subkey heap regf child parent \<longleftrightarrow> child \<in> set (subkeys_of heap regf parent)"

fun is_KeyName :: "event \<Rightarrow> bool" where
  "is_KeyName (KeyName tabs name) = True"
| "is_KeyName e = False"

fun is_Warn :: "event \<Rightarrow> bool" where
  "is_Warn (Warn a b) = True"
| "is_Warn e = False"

definition key_lines :: "run \<Rightarrow> event list" where
  "key_lines r = filter is_KeyName (fst r)"

definition printed_name :: "NK \<Rightarrow> byte list" where
  "printed_name k = takeWhile (\<lambda>b. b \<noteq> 0) (nk_name k)"

text \<open>
  The bytes of a key node with the given type, subkey count, subkey-index offset (each
  below 256) and name, every other field zero, and the node they decode to. A cell is a
  stored length (the low byte of a negative length above \<open>-256\<close>), the data and padding.
\<close>

definition nk_bytes :: "byte \<Rightarrow> byte \<Rightarrow> byte \<Rightarrow> byte list \<Rightarrow> byte list" where
  "nk_bytes typ nsub sub name =
     [0x6E, 0x6B, typ, 0] @ replicate 16 0 @ [nsub, 0, 0, 0] @ replicate 4 0 @ [sub, 0, 0, 0]
       @ replicate 40 0 @ [of_nat (length name), 0, 0, 0] @ name"

definition nk_value :: "byte \<Rightarrow> byte \<Rightarrow> byte \<Rightarrow> byte list \<Rightarrow> NK" where
  "nk_value typ nsub sub name =
     \<lparr> nk_signature = [0x6E, 0x6B],
       nk_type = ucast typ,
       nk_modified = \<lparr> dwLowDateTime = 0, dwHighDateTime = 0 \<rparr>,
       nk_u1 = 0,
       nk_parent = 0,
       nk_num_subkeys = ucast nsub,
       nk_u2 = 0,
       nk_subkeys = ucast sub,
       nk_u3 = 0,
       nk_num_values = 0,
       nk_values = 0,
       nk_security = 0,
       nk_classname = 0,
       nk_u4 = [0, 0, 0, 0, 0],
       nk_name_len = of_nat (length name),
       nk_classname_len = 0,
       nk_name = name \<rparr>"

definition cell :: "byte \<Rightarrow> byte list \<Rightarrow> nat \<Rightarrow> byte list" where
  "cell len data pad = [len, 0xFF, 0xFF, 0xFF] @ data @ replicate pad 0"

text \<open>The names \<open>ROOT\<close>, \<open>A\<close> and \<open>B\<close>, and the two leaf cells.\<close>

definition name_ROOT :: "byte list" where "name_ROOT = [0x52, 0x4F, 0x4F, 0x54]"
definition name_A :: "byte list" where "name_A = [0x41]"
definition name_B :: "byte list" where "name_B = [0x42]"

definition cell_A :: "byte list" where
  "cell_A = cell 0xA8 (nk_bytes 0x20 0 0 name_A) 7"

definition cell_B :: "byte list" where
  "cell_B = cell 0xA8 (nk_bytes 0x20 0 0 name_B) 7"

text \<open>
  The root cell, at relative offset \<open>0x20\<close>: a root key that declares \<open>c\<close> subkeys, with
  its subkey index at \<open>0x78\<close>, the offset of the cell that follows it.
\<close>

definition root_cell :: "byte \<Rightarrow> byte list" where
  "root_cell c = cell 0xA8 (nk_bytes 0x2C c 0x78 name_ROOT) 4"

definition root_key :: "byte \<Rightarrow> NK" where
  "root_key c = nk_value 0x2C c 0x78 name_ROOT"

text \<open>
  A root that declares \<open>c\<close> subkeys, with an \<open>lh\<close> list of two entries at \<open>0x78\<close> that point
  to the leaves \<open>A\<close> at \<open>0x90\<close> and \<open>B\<close> at \<open>0xE8\<close>.
\<close>

definition family_list :: "byte list" where
  "family_list = [0x6C, 0x68, 2, 0, 0x90, 0, 0, 0, 0x41, 0, 0, 0, 0xE8, 0, 0, 0, 0x42, 0, 0, 0]"

definition family_hive :: "byte \<Rightarrow> byte list" where
  "family_hive c = hive (root_cell c @ cell 0xE8 family_list 0 @ cell_A @ cell_B)"



text \<open>
  A root that declares \<open>c\<close> subkeys, with an \<open>ri\<close> record at \<open>0x78\<close> of two entries: an \<open>lh\<close>
  list at \<open>0x88\<close> with the one entry \<open>A\<close> (at \<open>0xA8\<close>), and an \<open>li\<close> list at \<open>0x98\<close> with
  the one entry \<open>B\<close> (at \<open>0x100\<close>).
\<close>

definition ri_record :: "byte list" where
  "ri_record = [0x72, 0x69, 2, 0, 0x88, 0, 0, 0, 0x98, 0, 0, 0]"

definition ri_first :: "byte list" where
  "ri_first = [0x6C, 0x68, 1, 0, 0xA8, 0, 0, 0, 0x41, 0, 0, 0]"

definition ri_second :: "byte list" where
  "ri_second = [0x6C, 0x69, 1, 0, 0x00, 0x01, 0, 0]"

definition ri_hive :: "byte \<Rightarrow> byte list" where
  "ri_hive c =
     hive (root_cell c @ cell 0xF0 ri_record 0 @ cell 0xF0 ri_first 0 @ cell 0xF0 ri_second 4
       @ cell_A @ cell_B)"

text \<open>A root whose subkey index is an \<open>ri\<close> record with the entry count \<open>-1\<close>, and the
  same with an \<open>lh\<close> list in place of the \<open>ri\<close> record.\<close>

definition negative_ri :: "byte list" where
  "negative_ri = [0x72, 0x69, 0xFF, 0xFF, 0x88, 0, 0, 0, 0x98, 0, 0, 0]"

definition negative_ri_hive :: "byte list" where
  "negative_ri_hive = hive (root_cell 1 @ cell 0xF0 negative_ri 0)"

definition negative_lh :: "byte list" where
  "negative_lh = [0x6C, 0x68, 0xFF, 0xFF, 0x88, 0, 0, 0, 0x98, 0, 0, 0]"

definition negative_lh_hive :: "byte list" where
  "negative_lh_hive = hive (root_cell 1 @ cell 0xF0 negative_lh 0)"

text \<open>A root whose \<open>ri\<close> record has the two entries \<open>0x88\<close> and \<open>0x98\<close>, with an \<open>li\<close> list of
  entry count \<open>-1\<close> at \<open>0x88\<close>.\<close>

definition negative_li :: "byte list" where
  "negative_li = [0x6C, 0x69, 0xFF, 0xFF, 0xA8, 0, 0, 0]"

definition negative_li_hive :: "byte list" where
  "negative_li_hive = hive (root_cell 1 @ cell 0xF0 ri_record 0 @ cell 0xF0 negative_li 4)"

subsection \<open>The body of printSubTree after the name is printed\<close>

text \<open>
  Lines 145-315 with the recursive call as a parameter, used to reason about
  \<open>printSubTree\<close> one level at a time; \<open>printSubTree_body\<close> below shows that it is the
  text of \<open>printSubTree\<close>. \<open>grants_small\<close> says that the allocator grants every request of
  at most \<open>2^18\<close> bytes; no list with a non-negative count and no key name asks for more.
\<close>

definition subtree_body :: "(NK \<Rightarrow> run) \<Rightarrow> heap \<Rightarrow> byte list \<Rightarrow> NK \<Rightarrow> run" where
  "subtree_body rec heap regf root =
     (if nk_num_subkeys root = 0 \<or> nk_subkeys root = 0 \<or> nk_subkeys root = 0xFFFFFFFF
      then ([], Done ())
      else
        case fread_LH regf (unat (convOff (nk_subkeys root))) of
          None \<Rightarrow> ([], Undefined)
        | Some lh \<Rightarrow>
            if lh_signature lh = sig_lh \<or> lh_signature lh = sig_lf then
              if sint (lh_num_entries lh) < 0 then ([], Exit 1)
              else
                then_do
                  (if sint (nk_num_subkeys root) \<noteq> sint (lh_num_entries lh)
                   then ([Warn (sint (nk_num_subkeys root)) (sint (lh_num_entries lh))], Done ())
                   else ([], Done ()))
                  (case fread_array heap regf (unat (convOff (nk_subkeys root))) 8
                          (lh_num_entries lh) of
                     (out, Done hashes) \<Rightarrow>
                       then_do (out, Done ())
                         (nk_loop 0 rec heap regf (map (\<lambda>h. hr_offset (HashRec_of h)) hashes))
                   | (out, Exit c) \<Rightarrow> (out, Exit c)
                   | (out, Undefined) \<Rightarrow> (out, Undefined)
                   | (out, OutOfFuel) \<Rightarrow> (out, OutOfFuel))
            else if lh_signature lh = sig_ri then
              (case fread_array heap regf (unat (convOff (nk_subkeys root))) 4
                      (lh_num_entries lh) of
                 (out, Done li_offsets) \<Rightarrow>
                   then_do (out, Done ())
                     (ri_loop rec heap regf (map (\<lambda>e. u32_at e 0) li_offsets))
               | (out, Exit c) \<Rightarrow> (out, Exit c)
               | (out, Undefined) \<Rightarrow> (out, Undefined)
               | (out, OutOfFuel) \<Rightarrow> (out, OutOfFuel))
            else ([Msg ''Fatal: encountered unknown subkey type''], Exit 1))"

definition grants_small :: "heap \<Rightarrow> bool" where
  "grants_small heap \<longleftrightarrow> (\<forall>m. m \<le> 262144 \<longrightarrow> heap m)"

section \<open>Timestamp conversion\<close>

lemma ticks_quotient: "uint ((t :: u64) div 10000000) = uint t div 10000000"
  by (simp add: uint_div)

lemma WindowsTickToUnixSeconds_uint:
  "uint (WindowsTickToUnixSeconds t) = (uint t div 10000000 - 11644473600) mod 2 ^ 32"
proof -
  have "uint (WindowsTickToUnixSeconds t)
      = uint ((t div 10000000) - (11644473600 :: u64)) mod 2 ^ 32"
    unfolding WindowsTickToUnixSeconds_def WINDOWS_TICK_def SEC_TO_UNIX_EPOCH_def
    by (simp add: unsigned_ucast_eq take_bit_eq_mod)
  also have "\<dots> = ((uint t div 10000000 - 11644473600) mod 2 ^ 64) mod 2 ^ 32"
    by (simp add: ticks_quotient uint_word_ariths)
  also have "\<dots> = (uint t div 10000000 - 11644473600) mod 2 ^ 32"
    by (simp add: mod_mod_cancel)
  finally show ?thesis .
qed

text \<open>
  Claim C9, as amended. The value returned is an \<open>unsigned\<close>: it is
  \<open>ticks / 10_000_000 - 11_644_473_600\<close> reduced modulo \<open>2^32\<close>, and it is that
  difference itself whenever the difference lies between 0 and \<open>2^32 - 1\<close>.
\<close>

theorem ticks_to_unix_seconds_mod:
  "uint (WindowsTickToUnixSeconds t) = (uint t div 10000000 - 11644473600) mod 2 ^ 32 \<and>
   (0 \<le> uint t div 10000000 - 11644473600 \<and> uint t div 10000000 - 11644473600 < 2 ^ 32
      \<longrightarrow> uint (WindowsTickToUnixSeconds t) = uint t div 10000000 - 11644473600)"
  by (simp add: WindowsTickToUnixSeconds_uint)

theorem ticks_to_unix_seconds_mod_witness:
  "uint (WindowsTickToUnixSeconds 131000000000000000) = 1455526400 \<and>
   uint (131000000000000000 :: u64) div 10000000 - 11644473600 = 1455526400"
  using ticks_to_unix_seconds_mod [of 131000000000000000] by simp

text \<open>
  Claim C9 as stated fails for a tick count before 1970: for \<open>t = 0\<close> the difference is
  \<open>-11644473600\<close>, and the function returns \<open>1240428288\<close>.
\<close>

theorem ticks_to_unix_seconds_counterexample:
  "uint (WindowsTickToUnixSeconds 0) \<noteq> uint (0 :: u64) div 10000000 - 11644473600"
  by (simp add: WindowsTickToUnixSeconds_uint)

section \<open>Header validation\<close>

lemma le32_byte0: "ucast (le32 a b c d) = a"
  unfolding le32_def
  by (rule bit_word_eqI) (auto simp add: bit_simps dest: bit_imp_le_length)

lemma le32_byte1: "ucast (drop_bit 8 (le32 a b c d)) = b"
  unfolding le32_def
  by (rule bit_word_eqI) (auto simp add: bit_simps dest: bit_imp_le_length)

lemma le32_byte2: "ucast (drop_bit 16 (le32 a b c d)) = c"
  unfolding le32_def
  by (rule bit_word_eqI) (auto simp add: bit_simps dest: bit_imp_le_length)

lemma le32_byte3: "ucast (drop_bit 24 (le32 a b c d)) = d"
  unfolding le32_def
  by (rule bit_word_eqI) (auto simp add: bit_simps dest: bit_imp_le_length)

lemma le32_inj: "le32 a b c d = le32 a' b' c' d' \<longleftrightarrow> a = a' \<and> b = b' \<and> c = c' \<and> d = d'"
  by (metis le32_byte0 le32_byte1 le32_byte2 le32_byte3)

lemma xor_all_update:
  "k < length ws \<Longrightarrow> xor_all (ws[k := y]) = xor_all ws XOR (ws ! k XOR y)"
proof (induction ws arbitrary: k)
  case Nil
  then show ?case by simp
next
  case (Cons w ws)
  show ?case
  proof (cases k)
    case 0
    then show ?thesis by (simp add: xor_all_def ac_simps)
  next
    case (Suc j)
    with Cons.prems have "j < length ws" by simp
    from Cons.IH [OF this] Suc show ?thesis
      by (simp add: xor_all_def ac_simps)
  qed
qed

lemma cksum_loop_from:
  "m \<le> 127 \<Longrightarrow>
   cksum_loop hdr (4 * m) c = c XOR xor_all (map (\<lambda>k. u32_at hdr (4 * k)) [m..<127])"
proof (induction "127 - m" arbitrary: m c)
  case 0
  then have "m = 127" by simp
  then show ?case by (simp add: cksum_loop.simps xor_all_def)
next
  case (Suc d)
  then have lt: "m < 127" and d: "d = 127 - Suc m" by simp_all
  have "cksum_loop hdr (4 * m) c = cksum_loop hdr (4 * Suc m) (c XOR u32_at hdr (4 * m))"
    using lt by (subst cksum_loop.simps) (simp add: add.commute)
  also have "\<dots> = (c XOR u32_at hdr (4 * m)) XOR xor_all (map (\<lambda>k. u32_at hdr (4 * k)) [Suc m..<127])"
    using Suc.hyps(1) [OF d] lt by simp
  also have "\<dots> = c XOR xor_all (map (\<lambda>k. u32_at hdr (4 * k)) [m..<127])"
    using lt by (simp add: upt_conv_Cons xor_all_def ac_simps)
  finally show ?case .
qed

lemma cksum_loop_words: "cksum_loop hdr 0 0 = xor_all (header_words hdr)"
  using cksum_loop_from [of 0 hdr 0] by (simp add: header_words_def del: upt_rec_numeral)

lemma length_header_words: "length (header_words m) = 127"
  by (simp add: header_words_def del: upt_rec_numeral)

lemma nth_header_words: "k < 127 \<Longrightarrow> header_words m ! k = u32_at m (4 * k)"
  by (simp add: header_words_def del: upt_rec_numeral)

lemma flip_bit_byte_neq: "j < 8 \<Longrightarrow> flip_bit j (b :: byte) \<noteq> b"
proof
  assume j: "j < 8" and eq: "flip_bit j b = b"
  have "bit (flip_bit j b) j \<longleftrightarrow> \<not> bit b j"
    using j by (simp add: bit_flip_bit_iff)
  with eq show False by simp
qed

lemma u32_at_update_other:
  "i < 4 * k \<or> 4 * k + 4 \<le> i \<Longrightarrow> u32_at (m[i := b]) (4 * k) = u32_at m (4 * k)"
  by (auto simp add: u32_at_def)

lemma u32_at_update_same:
  assumes "4 * k \<le> i" "i < 4 * k + 4" "i < length m" "b \<noteq> m ! i"
  shows "u32_at (m[i := b]) (4 * k) \<noteq> u32_at m (4 * k)"
proof -
  from assms(1,2) consider "i = 4 * k" | "i = 4 * k + 1" | "i = 4 * k + 2" | "i = 4 * k + 3"
    by linarith
  then show ?thesis
    using assms(3,4) by cases (auto simp add: u32_at_def le32_inj)
qed

lemma header_words_update:
  "header_words (m[i := b]) = (header_words m)[i div 4 := u32_at (m[i := b]) (4 * (i div 4))]"
proof (rule nth_equalityI)
  show "length (header_words (m[i := b]))
      = length ((header_words m)[i div 4 := u32_at (m[i := b]) (4 * (i div 4))])"
    by (simp add: length_header_words)
next
  fix k assume "k < length (header_words (m[i := b]))"
  then have k: "k < 127" by (simp add: length_header_words)
  show "header_words (m[i := b]) ! k
      = (header_words m)[i div 4 := u32_at (m[i := b]) (4 * (i div 4))] ! k"
  proof (cases "k = i div 4")
    case True
    with k show ?thesis by (simp add: nth_header_words length_header_words)
  next
    case False
    then have "i < 4 * k \<or> 4 * k + 4 \<le> i" by linarith
    from u32_at_update_other [OF this] k False show ?thesis
      by (simp add: nth_header_words)
  qed
qed

lemma xor_changes: "c \<noteq> 0 \<Longrightarrow> (a :: u32) XOR c \<noteq> a"
proof
  assume "c \<noteq> 0" and "a XOR c = a"
  then have "a XOR (a XOR c) = a XOR a" by simp
  then have "c = 0" by (simp only: bit.xor_left_self bit.xor_self)
  with \<open>c \<noteq> 0\<close> show False by simp
qed

lemma xor_distinct: "(a :: u32) \<noteq> b \<Longrightarrow> a XOR b \<noteq> 0"
proof
  assume "a \<noteq> b" and "a XOR b = 0"
  then have "a XOR (a XOR b) = a XOR 0" by simp
  then have "b = a" by (simp only: bit.xor_left_self xor.right_neutral)
  with \<open>a \<noteq> b\<close> show False by simp
qed

lemma xor_all_flip:
  assumes len: "length hdr = 512" and i: "4 \<le> i" "i < 508" and b: "b \<noteq> hdr ! i"
  shows "xor_all (header_words (hdr[i := b])) \<noteq> xor_all (header_words hdr)"
proof -
  let ?k = "i div 4"
  let ?w' = "u32_at (hdr[i := b]) (4 * ?k)"
  have k: "?k < length (header_words hdr)" using i by (simp add: length_header_words)
  have "?k < 127" using i by simp
  then have w: "header_words hdr ! ?k = u32_at hdr (4 * ?k)"
    by (rule nth_header_words)
  have "?w' \<noteq> u32_at hdr (4 * ?k)"
    by (rule u32_at_update_same) (use len i b in simp_all)
  then have "u32_at hdr (4 * ?k) \<noteq> ?w'" by (rule not_sym)
  then have "u32_at hdr (4 * ?k) XOR ?w' \<noteq> 0" by (rule xor_distinct)
  moreover have "xor_all (header_words (hdr[i := b]))
      = xor_all (header_words hdr) XOR (u32_at hdr (4 * ?k) XOR ?w')"
    by (simp only: header_words_update xor_all_update [OF k] w)
  ultimately show ?thesis
    by (simp only: xor_changes not_False_eq_True)
qed

lemma validHeader_cases:
  "validHeader hdr =
     (if take 4 hdr \<noteq> sig_regf then ([Msg ''Invalid header.''], 0)
      else if xor_all (header_words hdr) \<noteq> u32_at hdr 508 then ([Msg ''Bad checksum.''], 0)
      else ([], 1))"
  by (simp add: validHeader_def cksum_loop_words)

lemma validHeader_flip:
  assumes len: "length hdr = 512" and ok: "validHeader hdr = ([], 1)"
    and i: "i < 508" and j: "j < 8"
  shows "snd (validHeader (hdr[i := flip_bit j (hdr ! i)])) = 0"
proof -
  let ?b = "flip_bit j (hdr ! i)"
  have b: "?b \<noteq> hdr ! i" using j by (rule flip_bit_byte_neq)
  from ok have sig: "take 4 hdr = sig_regf" and ck: "xor_all (header_words hdr) = u32_at hdr 508"
    by (auto simp add: validHeader_cases split: if_splits)
  show ?thesis
  proof (cases "i < 4")
    case True
    have "take 4 (hdr[i := ?b]) ! i = ?b" using True len by simp
    moreover have "take 4 hdr ! i = hdr ! i" using True by simp
    ultimately have "take 4 (hdr[i := ?b]) \<noteq> take 4 hdr" using b by metis
    with sig show ?thesis by (simp add: validHeader_cases)
  next
    case False
    then have i4: "4 \<le> i" by simp
    have "u32_at (hdr[i := ?b]) 508 = u32_at hdr 508"
      using i by (simp add: u32_at_def)
    moreover have "xor_all (header_words (hdr[i := ?b])) \<noteq> xor_all (header_words hdr)"
      using len i4 i b by (rule xor_all_flip)
    ultimately show ?thesis using ck by (simp add: validHeader_cases)
  qed
qed

text \<open>
  Claim C7. For a 512-byte header: \<open>validHeader\<close> prints \<open>Invalid header.\<close> and returns 0
  exactly when the first four bytes are not \<open>regf\<close>; otherwise it prints \<open>Bad checksum.\<close>
  and returns 0 exactly when the XOR of the 127 words before the checksum field differs
  from that field; otherwise it returns 1. Flipping any one bit of the first 508 bytes of
  a header that validates gives a header that does not.
\<close>

theorem validHeader_signature_checksum:
  assumes "length hdr = 512"
  shows "(validHeader hdr = ([Msg ''Invalid header.''], 0) \<longleftrightarrow> take 4 hdr \<noteq> sig_regf) \<and>
         (validHeader hdr = ([Msg ''Bad checksum.''], 0) \<longleftrightarrow>
            take 4 hdr = sig_regf \<and> xor_all (header_words hdr) \<noteq> u32_at hdr 508) \<and>
         (validHeader hdr = ([], 1) \<longleftrightarrow>
            take 4 hdr = sig_regf \<and> xor_all (header_words hdr) = u32_at hdr 508) \<and>
         (\<forall>i j. validHeader hdr = ([], 1) \<and> i < 508 \<and> j < 8 \<longrightarrow>
            snd (validHeader (hdr[i := flip_bit j (hdr ! i)])) = 0)"
  using assms by (auto simp add: validHeader_cases dest: validHeader_flip)

lemma xor_all_zeros: "xor_all (replicate n 0) = 0"
  by (induction n) (simp_all add: xor_all_def)

lemma xor_all_head:
  assumes "ws \<noteq> []" and "\<And>k. 0 < k \<Longrightarrow> k < length ws \<Longrightarrow> ws ! k = 0"
  shows "xor_all ws = ws ! 0"
proof -
  from assms(1) obtain w rest where ws: "ws = w # rest" by (cases ws) auto
  have "rest = replicate (length rest) 0"
  proof (rule nth_equalityI)
    fix k assume "k < length rest"
    with assms(2) [of "Suc k"] ws show "rest ! k = replicate (length rest) 0 ! k" by simp
  qed simp
  then have "xor_all rest = 0" by (metis xor_all_zeros)
  with ws show ?thesis by (simp add: xor_all_def)
qed

lemma vh_len: "length valid_header = 512"
  by (simp add: valid_header_def sig_regf_def)

lemma vh_zero: "4 \<le> i \<Longrightarrow> i < 508 \<Longrightarrow> valid_header ! i = 0"
  by (simp add: valid_header_def sig_regf_def nth_append)

lemma vh_words: "xor_all (header_words valid_header) = u32_at valid_header 0"
proof -
  have "xor_all (header_words valid_header) = header_words valid_header ! 0"
  proof (rule xor_all_head)
    show "header_words valid_header \<noteq> []"
      using length_header_words [of valid_header] by auto
  next
    fix k assume k: "0 < k" "k < length (header_words valid_header)"
    then have k127: "k < 127" by (simp add: length_header_words)
    with k(1) show "header_words valid_header ! k = 0"
      by (simp add: nth_header_words u32_at_def vh_zero le32_def)
  qed
  then show ?thesis by (simp add: nth_header_words)
qed

lemma vh_ok: "validHeader valid_header = ([], 1)"
proof -
  have "u32_at valid_header 0 = u32_at valid_header 508"
    by (simp add: u32_at_def valid_header_def sig_regf_def nth_append)
  moreover have "take 4 valid_header = sig_regf"
    by (simp add: valid_header_def sig_regf_def)
  ultimately show ?thesis by (simp add: validHeader_cases vh_words)
qed

theorem validHeader_signature_checksum_witness:
  "length valid_header = 512 \<and> validHeader valid_header = ([], 1) \<and>
   snd (validHeader (valid_header[20 := flip_bit 3 (valid_header ! 20)])) = 0"
  using validHeader_signature_checksum [OF vh_len] vh_len vh_ok by simp

section \<open>The search for the root cell\<close>

lemma sint_cell_size_real:
  "sint (cell_size_real L) = signed_take_bit 31 (- sint L - 4)"
proof -
  have "cell_size_real L = - L - 4" by (simp add: cell_size_real_def)
  then have "sint (cell_size_real L) = signed_take_bit 31 (sint (- L) - 4)"
    by (simp add: sint_word_ariths)
  also have "\<dots> = signed_take_bit 31 (signed_take_bit 31 (- sint L) - 4)"
    by (simp add: sint_word_ariths)
  also have "\<dots> = signed_take_bit 31 (- sint L - 4)"
    using signed_take_bit_diff [of 31 "- sint L" 4] by simp
  finally show ?thesis .
qed

lemma signed_take_bit_31_cases:
  fixes x :: int
  assumes "- (2 ^ 31) - 4 \<le> x" "x < 2 ^ 31"
  shows "signed_take_bit 31 x = (if x < - (2 ^ 31) then x + 2 ^ 32 else x)"
  using assms
  by (simp add: signed_take_bit_eq_take_bit_shift take_bit_eq_mod) (smt (verit) mod_pos_pos_trivial mod_add_self2)

lemma cell_size_check:
  "(sint (cell_size_real L) < 0 \<or> sint (cell_size_real L) > 0x1000) \<longleftrightarrow>
   (- sint L - 4 < 0 \<or> - sint L - 4 > 4096)"
proof -
  have r: "- (2 ^ 31) \<le> sint L" "sint L < 2 ^ 31"
    using sint_range_size [of L] by (simp_all add: word_size)
  then have "- (2 ^ 31) - 4 \<le> - sint L - 4" "- sint L - 4 < 2 ^ 31" by simp_all
  from signed_take_bit_31_cases [OF this] r show ?thesis
    by (simp add: sint_cell_size_real split: if_splits)
qed


lemma length_header_page: "length header_page = 4096"
  by (simp add: header_page_def valid_header_def sig_regf_def)

lemma length_hbin_header: "length hbin_header = 32"
  by (simp add: hbin_header_def sig_hbin_def)

lemma length_hive: "length (hive cells) = 4128 + length cells"
  by (simp add: hive_def length_header_page length_hbin_header)

lemma drop_hive: "4128 \<le> n \<Longrightarrow> drop n (hive cells) = drop (n - 4128) cells"
  by (simp add: hive_def length_header_page length_hbin_header)

lemma scan_start_hive:
  "scan_start (hive cells) = \<lparr> sc_pos = 4128, sc_cell_size = - 1, sc_bh = Some hbin_header \<rparr>"
  by (simp add: scan_start_def hive_def length_header_page length_hbin_header)

lemma skip_hbin_off_boundary: "sc_pos s mod 4096 \<noteq> 0 \<Longrightarrow> skip_hbin regf s = Some s"
  by (simp add: skip_hbin_def)

lemma u32_at_bytes: "u32_at (b0 # b1 # b2 # b3 # bs) 0 = le32 b0 b1 b2 b3"
  by (simp add: u32_at_def)

lemma take_512_hive: "take 512 (hive cells) = valid_header"
  by (simp add: hive_def header_page_def vh_len)

lemma fread_cell_size_hive:
  "fread_cell_size (hive (b0 # b1 # b2 # b3 # bs)) \<lparr> sc_pos = 4128, sc_cell_size = c, sc_bh = h \<rparr>
     = Some \<lparr> sc_pos = 4132, sc_cell_size = le32 b0 b1 b2 b3, sc_bh = h \<rparr>"
  by (simp add: fread_cell_size_def drop_hive u32_at_bytes)

lemma unat_cell_size_real:
  "0 \<le> - sint L - 4 \<Longrightarrow> - sint L - 4 \<le> 4096 \<Longrightarrow>
   sint (cell_size_real L) = - sint L - 4 \<and> unat (cell_size_real L) = nat (- sint L - 4)"
proof -
  assume a: "0 \<le> - sint L - 4" "- sint L - 4 \<le> 4096"
  then have "- (2 ^ 31) - 4 \<le> - sint L - 4" "- sint L - 4 < 2 ^ 31" by simp_all
  from signed_take_bit_31_cases [OF this] a
  have s: "sint (cell_size_real L) = - sint L - 4"
    by (simp add: sint_cell_size_real)
  with a have "0 \<le> sint (cell_size_real L)" by simp
  moreover have "sint (cell_size_real L) < 2 ^ 32"
    using sint_lt [of "cell_size_real L"] by simp
  ultimately have "uint (cell_size_real L) = sint (cell_size_real L)"
    by (simp add: uint_sint take_bit_int_eq_self)
  with s show ?thesis by (simp add: unat_eq_nat_uint)
qed

text \<open>
  Claim C4, as amended. In an iteration of the search that reads the stored length \<open>L\<close>,
  the real length is \<open>-L - 4\<close>; when it is negative or above 4096 the iteration ends in
  \<open>exit(1)\<close>, and when it lies in \<open>0 .. 4096\<close> (0 included) the size test passes: the
  iteration then calls \<open>exit(1)\<close> only if the allocation of that many bytes fails.
\<close>

theorem cell_size_check_range:
  assumes "skip_hbin regf s = Some s1" and "fread_cell_size regf s1 = Some s2"
  shows "(- sint (sc_cell_size s2) - 4 < 0 \<or> - sint (sc_cell_size s2) - 4 > 4096 \<longrightarrow>
            find_root (Suc n) heap regf s = Exit 1) \<and>
         (0 \<le> - sint (sc_cell_size s2) - 4 \<and> - sint (sc_cell_size s2) - 4 \<le> 4096 \<longrightarrow>
            sint (cell_size_real (sc_cell_size s2)) = - sint (sc_cell_size s2) - 4 \<and>
            (find_root 1 heap regf s = Exit 1 \<longleftrightarrow>
               \<not> heap (nat (- sint (sc_cell_size s2) - 4))))"
proof (intro conjI impI)
  assume "- sint (sc_cell_size s2) - 4 < 0 \<or> - sint (sc_cell_size s2) - 4 > 4096"
  then have "sint (cell_size_real (sc_cell_size s2)) < 0
      \<or> sint (cell_size_real (sc_cell_size s2)) > 0x1000"
    by (simp only: cell_size_check)
  with assms show "find_root (Suc n) heap regf s = Exit 1" by simp
next
  assume a: "0 \<le> - sint (sc_cell_size s2) - 4 \<and> - sint (sc_cell_size s2) - 4 \<le> 4096"
  then show "sint (cell_size_real (sc_cell_size s2)) = - sint (sc_cell_size s2) - 4"
    by (simp add: unat_cell_size_real)
  from a have ok: "\<not> (sint (cell_size_real (sc_cell_size s2)) < 0
      \<or> sint (cell_size_real (sc_cell_size s2)) > 0x1000)"
    by (simp only: cell_size_check) simp
  from a have u: "unat (cell_size_real (sc_cell_size s2)) = nat (- sint (sc_cell_size s2) - 4)"
    by (simp add: unat_cell_size_real)
  show "find_root 1 heap regf s = Exit 1 \<longleftrightarrow> \<not> heap (nat (- sint (sc_cell_size s2) - 4))"
    using assms ok u
    by (auto simp add: Let_def One_nat_def split: option.splits bool.splits)
qed

lemma sint_m4200: "sint (le32 0x98 0xEF 0xFF 0xFF) = - 4200"
  by (simp add: le32_def)

lemma sint_m8: "sint (le32 0xF8 0xFF 0xFF 0xFF) = - 8"
  by (simp add: le32_def)

theorem cell_size_check_range_witness:
  "find_root 1 heap_all long_cell_hive (scan_start long_cell_hive) = Exit 1 \<and>
   sint (cell_size_real (le32 0xF8 0xFF 0xFF 0xFF)) = 4 \<and>
   find_root 1 heap_all exhausted_hive (scan_start exhausted_hive) \<noteq> Exit 1"
proof -
  let ?s = "\<lparr> sc_pos = 4128, sc_cell_size = - 1, sc_bh = Some hbin_header \<rparr>"
  have skip: "skip_hbin f ?s = Some ?s" for f
    by (simp add: skip_hbin_off_boundary)
  have long: "fread_cell_size long_cell_hive ?s
      = Some \<lparr> sc_pos = 4132, sc_cell_size = le32 0x98 0xEF 0xFF 0xFF, sc_bh = Some hbin_header \<rparr>"
    unfolding long_cell_hive_def by (rule fread_cell_size_hive)
  have short: "fread_cell_size exhausted_hive ?s
      = Some \<lparr> sc_pos = 4132, sc_cell_size = le32 0xF8 0xFF 0xFF 0xFF, sc_bh = Some hbin_header \<rparr>"
    unfolding exhausted_hive_def by (rule fread_cell_size_hive)
  from cell_size_check_range [OF skip long, of 0 heap_all]
  have "find_root 1 heap_all long_cell_hive ?s = Exit 1"
    by (simp add: sint_m4200)
  moreover from cell_size_check_range [OF skip short, of 0 heap_all]
  have "sint (cell_size_real (le32 0xF8 0xFF 0xFF 0xFF)) = 4
      \<and> find_root 1 heap_all exhausted_hive ?s \<noteq> Exit 1"
    by (simp add: sint_m8 heap_all_def)
  ultimately show ?thesis
    by (simp add: long_cell_hive_def exhausted_hive_def scan_start_hive)
qed

text \<open>
  Claim C4 as stated fails for the stored length \<open>-4\<close>: the real length is 0, the size
  test passes, and with an allocator that grants \<open>malloc(0)\<close> the iteration goes on to
  compare the empty buffer with \<open>nk\<close> instead of calling \<open>exit\<close>.
\<close>

theorem cell_size_zero_counterexample:
  "- sint (le32 0xFC 0xFF 0xFF 0xFF) - 4 = 0 \<and>
   find_root 1 heap_all empty_cell_hive (scan_start empty_cell_hive) = Undefined"
  by (simp add: empty_cell_hive_def scan_start_hive skip_hbin_off_boundary fread_cell_size_hive
      drop_hive length_hive le32_def cell_size_real_def heap_all_def strncmp_nk_def)

text \<open>
  Claim C5. In every iteration of the search, a stored length that is not negative ends
  the program with \<open>exit(1)\<close>: the cell is not skipped.
\<close>

theorem free_cell_is_fatal:
  assumes "skip_hbin regf s = Some s1" and "fread_cell_size regf s1 = Some s2"
    and "0 \<le> sint (sc_cell_size s2)"
  shows "find_root (Suc n) heap regf s = Exit 1"
proof -
  from assms(3) have "- sint (sc_cell_size s2) - 4 < 0 \<or> - sint (sc_cell_size s2) - 4 > 4096"
    by simp
  then have "sint (cell_size_real (sc_cell_size s2)) < 0
      \<or> sint (cell_size_real (sc_cell_size s2)) > 0x1000"
    by (simp only: cell_size_check)
  with assms(1,2) show ?thesis by simp
qed

theorem free_cell_is_fatal_witness:
  "sint (le32 0x08 0x00 0x00 0x00) = 8 \<and>
   find_root 5 heap_all free_cell_hive (scan_start free_cell_hive) = Exit 1"
proof -
  let ?s = "\<lparr> sc_pos = 4128, sc_cell_size = - 1, sc_bh = Some hbin_header \<rparr>"
  have skip: "skip_hbin free_cell_hive ?s = Some ?s"
    by (simp add: skip_hbin_off_boundary)
  have cell: "fread_cell_size free_cell_hive ?s
      = Some \<lparr> sc_pos = 4132, sc_cell_size = le32 0x08 0x00 0x00 0x00, sc_bh = Some hbin_header \<rparr>"
    unfolding free_cell_hive_def by (rule fread_cell_size_hive)
  have len: "sint (le32 0x08 0x00 0x00 0x00) = 8" by (simp add: le32_def)
  have "find_root (Suc 4) heap_all free_cell_hive ?s = Exit 1"
    by (rule free_cell_is_fatal [OF skip cell]) (simp add: len)
  with len show ?thesis by (simp add: free_cell_hive_def scan_start_hive)
qed

text \<open>
  Claim C2 at its failing input. The file has a valid header and one cell that is not a
  key node. The second iteration reads no length at the end of the file, so \<open>cell_size\<close>
  keeps the value \<open>-8\<close> and passes the size test again; four bytes are allocated, no byte
  is read into them, and the buffer is compared with \<open>nk\<close>. No iteration tests for the end
  of the file, and the only \<open>exit\<close> left is the one for a failed allocation.
\<close>

theorem find_root_exhausted:
  "validHeader (take 512 exhausted_hive) = ([], 1) \<and>
   find_root (Suc (Suc n)) heap exhausted_hive (scan_start exhausted_hive)
     = (if heap 4 then Undefined else Exit 1)"
  by (simp add: exhausted_hive_def take_512_hive vh_ok scan_start_hive skip_hbin_off_boundary
      fread_cell_size_def drop_hive length_hive u32_at_bytes le32_def cell_size_real_def
      strncmp_nk_def)

section \<open>The walk: sequencing, arrays and the loop over key nodes\<close>

lemma then_do_Done [simp]: "then_do (out, Done u) b = (out @ fst b, snd b)"
  by (simp add: then_do_def)

lemma then_do_Exit [simp]: "then_do (out, Exit c) b = (out, Exit c)"
  by (simp add: then_do_def)

lemma then_do_Undefined [simp]: "then_do (out, Undefined) b = (out, Undefined)"
  by (simp add: then_do_def)

lemma then_do_OutOfFuel [simp]: "then_do (out, OutOfFuel) b = (out, OutOfFuel)"
  by (simp add: then_do_def)


lemma then_do_cases:
  "then_do a b = (case snd a of Done u \<Rightarrow> (fst a @ fst b, snd b) | st \<Rightarrow> a)"
  by (cases a; cases "snd a") (auto simp add: then_do_def)

lemma hr_offset_HashRec_of [simp]: "hr_offset (HashRec_of h) = u32_at h 0"
  by (simp add: HashRec_of_def)

lemma fread_array_out:
  "fread_array heap regf pos sz n = (out, Done items) \<Longrightarrow> out = []"
  by (auto simp add: fread_array_def Let_def split: if_splits)

lemma fread_array_not_fuel: "snd (fread_array heap regf pos sz n) \<noteq> OutOfFuel"
  by (auto simp add: fread_array_def Let_def split: if_splits)

lemma fread_array_not_undefined: "snd (fread_array heap regf pos sz n) \<noteq> Undefined"
  by (auto simp add: fread_array_def Let_def split: if_splits)

lemma length_chop [simp]: "length (chop sz k bs) = k"
  by (induction k arbitrary: bs) simp_all

lemma nth_chop:
  "i < k \<Longrightarrow> chop sz k bs ! i = take sz (drop (sz * i) bs)"
proof (induction k arbitrary: bs i)
  case 0
  then show ?case by simp
next
  case (Suc k)
  show ?case
  proof (cases i)
    case 0
    then show ?thesis by simp
  next
    case (Suc j)
    with Suc.prems have "j < k" by simp
    from Suc.IH [OF this] Suc show ?thesis by (simp add: add.commute)
  qed
qed

lemma unat_scast_count:
  assumes "0 \<le> sint (n :: u16)"
  shows "unat (scast n :: u64) = nat (sint n)"
proof -
  have "sint n < 2 ^ 15" using sint_lt [of n] by simp
  with assms have t: "take_bit 64 (sint n) = sint n"
    by (simp add: take_bit_int_eq_self)
  have s: "sint (scast n :: u64) = sint n"
    by (simp add: sint_up_scast is_up)
  have "uint (scast n :: u64) = take_bit LENGTH(64) (sint (scast n :: u64))"
    by (rule uint_sint)
  then have "uint (scast n :: u64) = take_bit 64 (sint n)"
    unfolding s by simp
  then have "uint (scast n :: u64) = sint n"
    by (simp only: t)
  then show ?thesis by (simp add: unat_eq_nat_uint)
qed

lemma alloc_size_count:
  assumes "0 \<le> sint (n :: u16)" and "sz \<le> 8"
  shows "alloc_size n sz = nat (sint n) * sz"
proof -
  have lt: "sint n < 2 ^ 15" using sint_lt [of n] by simp
  with assms(1) have a: "nat (sint n) \<le> 32767" by simp
  have "nat (sint n) * sz \<le> 32767 * 8"
    using a assms(2) by (rule mult_le_mono)
  then have "nat (sint n) * sz < 2 ^ 64" by simp
  moreover have "sz < 2 ^ 64" using assms(2) by simp
  ultimately show ?thesis
    using assms(1)
    by (simp add: alloc_size_def unat_word_ariths unat_scast_count unat_of_nat take_bit_nat_eq_self)
qed


lemma fread_array_full:
  assumes n: "0 \<le> sint n" and sz: "0 < sz" "sz \<le> 8"
    and heap: "heap (nat (sint n) * sz)"
    and len: "pos + 4 + nat (sint n) * sz \<le> length regf"
  shows "fread_array heap regf pos sz n
       = ([], Done (chop sz (nat (sint n)) (drop (pos + 4) regf)))"
proof -
  let ?N = "nat (sint n)"
  from len have "?N * sz \<le> length regf - (pos + 4)" by simp
  then have "?N \<le> (length regf - (pos + 4)) div sz"
    using sz(1) by (simp add: less_eq_div_iff_mult_less_eq)
  then have "min (unat (scast n :: u64)) ((length regf - (pos + 4)) div sz) = ?N"
    using n by (simp add: unat_scast_count)
  then have items: "fread_items regf (pos + 4) sz n = chop sz ?N (drop (pos + 4) regf)"
    by (simp add: fread_items_def)
  have "\<not> int ?N < sint n" using n by simp
  then show ?thesis
    using heap n sz(2) by (simp add: fread_array_def items alloc_size_count)
qed

lemma u32_at_take_drop:
  "q + 4 \<le> length m \<Longrightarrow> 4 \<le> sz \<Longrightarrow> u32_at (take sz (drop q m)) 0 = u32_at m q"
  by (simp add: u32_at_def)

lemma chop_offsets:
  assumes "p + sz * N \<le> length regf" and "4 \<le> sz"
  shows "map (\<lambda>e. u32_at e 0) (chop sz N (drop p regf))
       = map (\<lambda>i. u32_at regf (p + sz * i)) [0..<N]"
proof (rule nth_equalityI)
  show "length (map (\<lambda>e. u32_at e 0) (chop sz N (drop p regf)))
      = length (map (\<lambda>i. u32_at regf (p + sz * i)) [0..<N])" by simp
next
  fix i assume "i < length (map (\<lambda>e. u32_at e 0) (chop sz N (drop p regf)))"
  then have i: "i < N" by simp
  then have "Suc i \<le> N" by simp
  then have "sz * Suc i \<le> sz * N" by (rule mult_le_mono2)
  then have "sz * i + sz \<le> sz * N" by simp
  with assms have "p + sz * i + 4 \<le> length regf" by simp
  then have "u32_at (take sz (drop (p + sz * i) regf)) 0 = u32_at regf (p + sz * i)"
    using assms(2) by (rule u32_at_take_drop)
  with i show "map (\<lambda>e. u32_at e 0) (chop sz N (drop p regf)) ! i
      = map (\<lambda>i. u32_at regf (p + sz * i)) [0..<N] ! i"
    by (simp add: nth_chop add.commute)
qed

lemma nk_loop_complete:
  assumes "offs \<noteq> [] \<Longrightarrow> heap 80"
    and "map (\<lambda>off. fread_NK heap regf (unat (convOff off))) offs = map Some kids"
    and "\<And>k. k \<in> set kids \<Longrightarrow> snd (rec k) = Done ()"
  shows "nk_loop code rec heap regf offs = (concat (map (\<lambda>k. fst (rec k)) kids), Done ())"
  using assms
proof (induction offs arbitrary: kids)
  case Nil
  then show ?case by simp
next
  case (Cons off offs)
  from Cons.prems(2) obtain k ks where kids: "kids = k # ks"
    and k: "fread_NK heap regf (unat (convOff off)) = Some k"
    and ks: "map (\<lambda>off. fread_NK heap regf (unat (convOff off))) offs = map Some ks"
    by (cases kids) auto
  have heap: "heap 80" using Cons.prems(1) by simp
  have rest: "nk_loop code rec heap regf offs = (concat (map (\<lambda>k. fst (rec k)) ks), Done ())"
    using Cons.prems(3) kids heap by (intro Cons.IH [OF _ ks]) auto
  have "snd (rec k) = Done ()" using Cons.prems(3) kids by simp
  then have "rec k = (fst (rec k), Done ())" by (metis prod.collapse)
  then have "then_do (rec k) (nk_loop code rec heap regf offs)
      = (fst (rec k) @ concat (map (\<lambda>k. fst (rec k)) ks), Done ())"
    using rest by (metis then_do_Done fst_conv snd_conv)
  then show ?case using heap k kids by simp
qed

lemma printNKName_ok:
  "heap (unat (nk_name_len k) + 1) \<Longrightarrow>
   printNKName heap k tabs = ([KeyName tabs (printed_name k)], Done ())"
  by (simp add: printNKName_def printed_name_def)

lemma printSubTree_leaf:
  "is_leaf k \<Longrightarrow> heap (unat (nk_name_len k) + 1) \<Longrightarrow>
   printSubTree (Suc fuel) heap regf k level = ([KeyName level (printed_name k)], Done ())"
  by (simp add: printNKName_ok is_leaf_def)

lemma printSubTree_direct:
  assumes nl: "\<not> is_leaf root"
    and lh: "fread_LH regf (unat (convOff (nk_subkeys root))) = Some lh"
    and sig: "lh_signature lh = sig_lh \<or> lh_signature lh = sig_lf"
    and n: "0 \<le> sint (lh_num_entries lh)"
    and name: "heap (unat (nk_name_len root) + 1)"
    and arr: "fread_array heap regf (unat (convOff (nk_subkeys root))) 8 (lh_num_entries lh)
                = ([], Done hashes)"
  shows "printSubTree (Suc fuel) heap regf root level =
     (KeyName level (printed_name root)
        # (if sint (nk_num_subkeys root) \<noteq> sint (lh_num_entries lh)
           then [Warn (sint (nk_num_subkeys root)) (sint (lh_num_entries lh))] else [])
        @ fst (nk_loop 0 (\<lambda>next. printSubTree fuel heap regf next (level + 1)) heap regf
                 (map (\<lambda>h. u32_at h 0) hashes)),
      snd (nk_loop 0 (\<lambda>next. printSubTree fuel heap regf next (level + 1)) heap regf
             (map (\<lambda>h. u32_at h 0) hashes)))"
proof -
  from nl have "\<not> (nk_num_subkeys root = 0 \<or> nk_subkeys root = 0 \<or> nk_subkeys root = 0xFFFFFFFF)"
    by (simp add: is_leaf_def)
  then show ?thesis
    using lh sig n arr name by (simp add: printNKName_ok comp_def)
qed


lemma le16_low: "le16 b 0 = ucast b"
  by (simp add: le16_def)

lemma le32_low: "le32 b 0 0 0 = ucast b"
  by (simp add: le32_def)

lemma length_nk_bytes: "length (nk_bytes t n s name) = 76 + length name"
  by (simp add: nk_bytes_def)

lemma length_cell: "length (cell len data pad) = 4 + length data + pad"
  by (simp add: cell_def)

lemma drop_cell: "drop 4 (cell len data pad) = data @ replicate pad 0"
  by (simp add: cell_def)

lemma ucast_of_nat_byte:
  "n < 256 \<Longrightarrow> (ucast (of_nat n :: byte) :: u16) = of_nat n"
  by (rule word_unat_eq_iff [THEN iffD2])
    (simp add: unsigned_ucast_eq unat_of_nat take_bit_nat_eq_self)

lemma unat_of_nat_u16: "n < 256 \<Longrightarrow> unat (of_nat n :: u16) = n"
  by (simp add: unat_of_nat take_bit_nat_eq_self)

lemma nk_bytes_name_len:
  "length name < 256 \<Longrightarrow> u16_at (nk_bytes t n s name @ post) 72 = of_nat (length name)"
  by (simp add: nk_bytes_def u16_at_def nth_append le16_low ucast_of_nat_byte)

lemma NK_of_nk_bytes:
  assumes "length name < 256"
  shows "NK_of (nk_bytes t n s name @ post) = nk_value t n s name"
proof -
  have "take (unat (u16_at (nk_bytes t n s name @ post) 72)) (drop 76 (nk_bytes t n s name @ post))
      = name"
    using assms by (simp add: nk_bytes_name_len unat_of_nat_u16) (simp add: nk_bytes_def)
  moreover have "u16_at (nk_bytes t n s name @ post) 72 = of_nat (length name)"
    using assms by (rule nk_bytes_name_len)
  moreover have "take 2 (nk_bytes t n s name @ post) = [0x6E, 0x6B]"
    by (simp add: nk_bytes_def)
  moreover have "u16_at (nk_bytes t n s name @ post) 2 = ucast t"
    by (simp add: nk_bytes_def u16_at_def le16_low)
  moreover have "u16_at (nk_bytes t n s name @ post) 74 = 0"
    by (simp add: nk_bytes_def u16_at_def nth_append le16_def)
  moreover have "u32_at (nk_bytes t n s name @ post) 20 = ucast n"
    by (simp add: nk_bytes_def u32_at_def nth_append le32_low)
  moreover have "u32_at (nk_bytes t n s name @ post) 28 = ucast s"
    by (simp add: nk_bytes_def u32_at_def nth_append le32_low)
  moreover have "i \<in> {4, 8, 12, 16, 24, 32, 36, 40, 44, 48, 52, 56, 60, 64, 68}
      \<Longrightarrow> u32_at (nk_bytes t n s name @ post) i = 0" for i
    by (auto simp add: nk_bytes_def u32_at_def nth_append le32_def)
  ultimately show ?thesis
    by (simp add: NK_of_def nk_value_def)
qed

lemma fread_NK_drop:
  assumes d: "drop pos regf = nk_bytes t n s name @ post"
    and name: "length name < 256" and post: "4 \<le> length post"
    and heap: "heap (79 + length name)"
  shows "fread_NK heap regf pos = Some (nk_value t n s name)"
proof -
  let ?m = "nk_bytes t n s name @ post"
  have f80: "length (take 80 ?m) = 80"
    using post by (simp add: length_nk_bytes)
  have "take 80 ?m ! 72 = ?m ! 72" and "take 80 ?m ! (72 + 1) = ?m ! (72 + 1)"
    by (rule nth_take, simp)+
  then have "u16_at (take 80 ?m) 72 = u16_at ?m 72"
    by (simp only: u16_at_def)
  then have first: "u16_at (take 80 ?m) 72 = of_nat (length name)"
    using name by (simp only: nk_bytes_name_len)
  have un: "unat (of_nat (length name) :: u16) = length name"
    using name by (rule unat_of_nat_u16)
  have ar: "80 + length name - 1 = 79 + length name" by simp
  have full: "take (79 + length name) ?m = nk_bytes t n s name @ take 3 post"
    by (simp add: length_nk_bytes)
  have lenfull: "length (take (79 + length name) ?m) = 79 + length name"
    using post by (simp add: length_nk_bytes)
  have nk: "NK_of (take (79 + length name) ?m) = nk_value t n s name"
    using name by (simp only: full NK_of_nk_bytes)
  show ?thesis
    unfolding fread_NK_def d Let_def
    by (simp only: f80 first un ar lenfull nk heap less_irrefl if_False not_True_eq_False
        not_not simp_thms)
qed

lemma fread_LH_drop:
  "drop pos regf = s0 # s1 # n0 # n1 # post \<Longrightarrow>
   fread_LH regf pos = Some \<lparr> lh_signature = [s0, s1], lh_num_entries = le16 n0 n1 \<rparr>"
  by (simp add: fread_LH_def u16_at_def)

lemma u32_at_drop:
  "drop q regf = b0 # b1 # b2 # b3 # post \<Longrightarrow> u32_at regf q = le32 b0 b1 b2 b3"
proof -
  assume d: "drop q regf = b0 # b1 # b2 # b3 # post"
  then have "length (drop q regf) = 4 + length post" by simp
  then have q: "q + 4 \<le> length regf" by simp
  have nth: "regf ! (q + i) = drop q regf ! i" for i
    using q by simp
  show ?thesis
    unfolding u32_at_def
    using nth [of 0] nth [of 1] nth [of 2] nth [of 3] by (simp add: d)
qed

section \<open>The example hives and the children of a walk that completes\<close>

lemma length_cell_A: "length cell_A = 88"
  by (simp add: cell_A_def length_cell length_nk_bytes name_A_def)

lemma length_cell_B: "length cell_B = 88"
  by (simp add: cell_B_def length_cell length_nk_bytes name_B_def)

lemma drop_cell_A: "drop 4 cell_A = nk_bytes 0x20 0 0 name_A @ replicate 7 0"
  by (simp add: cell_A_def drop_cell)

lemma drop_cell_B: "drop 4 cell_B = nk_bytes 0x20 0 0 name_B @ replicate 7 0"
  by (simp add: cell_B_def drop_cell)

lemma length_root_cell: "length (root_cell c) = 88"
  by (simp add: root_cell_def length_cell length_nk_bytes name_ROOT_def)

lemma drop_root_cell: "drop 4 (root_cell c) = nk_bytes 0x2C c 0x78 name_ROOT @ replicate 4 0"
  by (simp add: root_cell_def drop_cell)

lemma drop_root:
  "drop 4132 (hive (root_cell c @ rest)) = nk_bytes 0x2C c 0x78 name_ROOT @ replicate 4 0 @ rest"
  by (simp add: drop_hive length_root_cell drop_root_cell)

lemma drop_index:
  "drop 4220 (hive (root_cell c @ cell len data pad @ rest)) = data @ replicate pad 0 @ rest"
  by (simp add: drop_hive length_root_cell drop_cell length_cell)

lemma family_drop_A:
  "drop 4244 (family_hive c) = nk_bytes 0x20 0 0 name_A @ replicate 7 0 @ cell_B"
  by (simp add: family_hive_def drop_hive length_root_cell length_cell family_list_def
      drop_cell_A length_cell_A)

lemma family_drop_B:
  "drop 4332 (family_hive c) = nk_bytes 0x20 0 0 name_B @ replicate 7 0"
  by (simp add: family_hive_def drop_hive length_root_cell length_cell family_list_def
      length_cell_A drop_cell_B)

lemma length_family_hive: "length (family_hive c) = 4416"
  by (simp add: family_hive_def length_hive length_root_cell length_cell family_list_def
      length_cell_A length_cell_B)


lemma map_filter_append:
  "List.map_filter f (xs @ ys) = List.map_filter f xs @ List.map_filter f ys"
  by (simp add: List.map_filter_def)

lemma map_filter_Cons_Some:
  "f x = Some y \<Longrightarrow> List.map_filter f (x # xs) = y # List.map_filter f xs"
  by (simp add: List.map_filter_def)

lemma map_filter_Cons_None:
  "f x = None \<Longrightarrow> List.map_filter f (x # xs) = List.map_filter f xs"
  by (simp add: List.map_filter_def)

lemma map_filter_map_Some:
  "map f xs = map Some ys \<Longrightarrow> List.map_filter f xs = ys"
proof (induction xs arbitrary: ys)
  case Nil
  then show ?case by (simp add: List.map_filter_def)
next
  case (Cons x xs)
  then obtain y ys' where "ys = y # ys'" "f x = Some y" "map f xs = map Some ys'"
    by (cases ys) auto
  with Cons.IH show ?case by (simp add: map_filter_Cons_Some)
qed

lemma then_do_Done_iff:
  "snd (then_do a b) = Done () \<longleftrightarrow> snd a = Done () \<and> snd b = Done ()"
  by (cases a; cases "snd a") (auto simp add: then_do_def)

lemma fst_then_do_Done:
  "snd a = Done () \<Longrightarrow> fst (then_do a b) = fst a @ fst b"
  by (simp add: then_do_def)

lemma nk_loop_Done:
  assumes "snd (nk_loop code rec heap regf offs) = Done ()"
  shows "fst (nk_loop code rec heap regf offs)
           = concat (map (\<lambda>k. fst (rec k))
               (List.map_filter (\<lambda>off. fread_NK heap regf (unat (convOff off))) offs)) \<and>
         (\<forall>k \<in> set (List.map_filter (\<lambda>off. fread_NK heap regf (unat (convOff off))) offs).
            snd (rec k) = Done ()) \<and>
         length (List.map_filter (\<lambda>off. fread_NK heap regf (unat (convOff off))) offs)
           = length offs"
  using assms
proof (induction offs)
  case Nil
  then show ?case by (simp add: List.map_filter_def)
next
  case (Cons off offs)
  let ?f = "\<lambda>off. fread_NK heap regf (unat (convOff off))"
  from Cons.prems have heap: "heap 80"
    by (auto split: if_splits)
  with Cons.prems obtain k where k: "?f off = Some k"
    by (auto split: option.splits)
  with Cons.prems heap
  have d: "snd (then_do (rec k) (nk_loop code rec heap regf offs)) = Done ()"
    by simp
  then have dk: "snd (rec k) = Done ()" and dr: "snd (nk_loop code rec heap regf offs) = Done ()"
    by (simp_all add: then_do_Done_iff)
  have "fst (nk_loop code rec heap regf (off # offs))
      = fst (rec k) @ fst (nk_loop code rec heap regf offs)"
    using heap k dk by (simp add: fst_then_do_Done)
  with Cons.IH [OF dr] dk show ?case
    by (simp add: k)
qed


lemma list_offsets_Done:
  "fread_array heap regf pos sz n = (out, Done items) \<Longrightarrow>
   list_offsets heap regf pos sz n = map (\<lambda>e. u32_at e 0) items"
  by (simp add: list_offsets_def)

lemma ri_loop_Cons_Done:
  assumes "snd (ri_loop rec heap regf (li # lis)) = Done ()"
  shows "snd (nk_loop 1 rec heap regf (secondary_offsets heap regf li)) = Done () \<and>
         snd (ri_loop rec heap regf lis) = Done () \<and>
         fst (ri_loop rec heap regf (li # lis))
           = fst (nk_loop 1 rec heap regf (secondary_offsets heap regf li))
               @ fst (ri_loop rec heap regf lis)"
proof -
  from assms obtain lh2 where lh2: "fread_LH regf (unat (convOff li)) = Some lh2"
    by (auto split: option.splits)
  show ?thesis
  proof (cases "lh_signature lh2 = sig_lh \<or> lh_signature lh2 = sig_lf")
    case True
    obtain out st where arr:
      "fread_array heap regf (unat (convOff li)) 8 (lh_num_entries lh2) = (out, st)"
      by (cases "fread_array heap regf (unat (convOff li)) 8 (lh_num_entries lh2)")
    with assms lh2 True obtain items where st: "st = Done items"
      by (cases st) auto
    then have out: "out = []" using arr fread_array_out by blast
    have so: "secondary_offsets heap regf li = map (\<lambda>e. u32_at e 0) items"
      using lh2 True arr st by (simp add: secondary_offsets_def list_offsets_def)
    have eq: "ri_loop rec heap regf (li # lis)
        = then_do (nk_loop 1 rec heap regf (secondary_offsets heap regf li))
            (ri_loop rec heap regf lis)"
      using lh2 True arr st out so by (simp add: comp_def)
    with assms show ?thesis
      by (simp add: then_do_Done_iff fst_then_do_Done)
  next
    case False
    with assms lh2 have li: "lh_signature lh2 = sig_li"
      by (auto split: if_splits)
    obtain out st where arr:
      "fread_array heap regf (unat (convOff li)) 4 (lh_num_entries lh2) = (out, st)"
      by (cases "fread_array heap regf (unat (convOff li)) 4 (lh_num_entries lh2)")
    with assms lh2 False li obtain items where st: "st = Done items"
      by (cases st) auto
    then have out: "out = []" using arr fread_array_out by blast
    have so: "secondary_offsets heap regf li = map (\<lambda>e. u32_at e 0) items"
      using lh2 False li arr st by (simp add: secondary_offsets_def list_offsets_def)
    have eq: "ri_loop rec heap regf (li # lis)
        = then_do (nk_loop 1 rec heap regf (secondary_offsets heap regf li))
            (ri_loop rec heap regf lis)"
      using lh2 False li arr st out so by simp
    with assms show ?thesis
      by (simp add: then_do_Done_iff fst_then_do_Done)
  qed
qed

lemma ri_loop_Done:
  assumes "snd (ri_loop rec heap regf lis) = Done ()"
  shows "fst (ri_loop rec heap regf lis)
           = concat (map (\<lambda>k. fst (rec k))
               (List.map_filter (\<lambda>off. fread_NK heap regf (unat (convOff off)))
                  (concat (map (secondary_offsets heap regf) lis)))) \<and>
         (\<forall>k \<in> set (List.map_filter (\<lambda>off. fread_NK heap regf (unat (convOff off)))
                  (concat (map (secondary_offsets heap regf) lis))).
            snd (rec k) = Done ())"
  using assms
proof (induction lis)
  case Nil
  then show ?case by (simp add: List.map_filter_def)
next
  case (Cons li lis)
  from ri_loop_Cons_Done [OF Cons.prems]
  have a: "snd (nk_loop 1 rec heap regf (secondary_offsets heap regf li)) = Done ()"
    and b: "snd (ri_loop rec heap regf lis) = Done ()"
    and c: "fst (ri_loop rec heap regf (li # lis))
           = fst (nk_loop 1 rec heap regf (secondary_offsets heap regf li))
               @ fst (ri_loop rec heap regf lis)"
    by simp_all
  from nk_loop_Done [OF a] Cons.IH [OF b] show ?case
    unfolding c by (auto simp add: map_filter_append simp del: ri_loop.simps nk_loop.simps)
qed

section \<open>Walking a directly referenced list\<close>

lemma printSubTree_body:
  "printSubTree (Suc fuel) heap regf root level =
     then_do (printNKName heap root level)
       (subtree_body (\<lambda>next. printSubTree fuel heap regf next (level + 1)) heap regf root)"
  unfolding subtree_body_def by (rule printSubTree.simps(2))

lemma subtree_body_leaf: "is_leaf root \<Longrightarrow> subtree_body rec heap regf root = ([], Done ())"
  by (simp add: subtree_body_def is_leaf_def)

lemma subkeys_of_leaf: "is_leaf root \<Longrightarrow> subkeys_of heap regf root = []"
  by (simp add: subkeys_of_def subkey_offsets_def List.map_filter_def)

lemma subtree_body_Done:
  assumes "snd (subtree_body rec heap regf root) = Done ()"
  shows "\<exists>warn. (warn = [] \<or> (\<exists>a b. warn = [Warn a b])) \<and>
           fst (subtree_body rec heap regf root)
             = warn @ concat (map (\<lambda>k. fst (rec k)) (subkeys_of heap regf root)) \<and>
           (\<forall>k \<in> set (subkeys_of heap regf root). snd (rec k) = Done ())"
proof (cases "is_leaf root")
  case True
  then show ?thesis by (simp add: subtree_body_leaf subkeys_of_leaf)
next
  case False
  then have nl: "\<not> (nk_num_subkeys root = 0 \<or> nk_subkeys root = 0 \<or> nk_subkeys root = 0xFFFFFFFF)"
    by (simp add: is_leaf_def)
  let ?pos = "unat (convOff (nk_subkeys root))"
  from assms nl obtain lh where lh: "fread_LH regf ?pos = Some lh"
    by (auto simp add: subtree_body_def split: option.splits)
  show ?thesis
  proof (cases "lh_signature lh = sig_lh \<or> lh_signature lh = sig_lf")
    case True
    with assms nl lh have n: "\<not> sint (lh_num_entries lh) < 0"
      by (auto simp add: subtree_body_def split: if_splits)
    obtain out st where arr: "fread_array heap regf ?pos 8 (lh_num_entries lh) = (out, st)"
      by (cases "fread_array heap regf ?pos 8 (lh_num_entries lh)")
    with assms nl lh True n obtain hashes where st: "st = Done hashes"
      by (cases st) (auto simp add: subtree_body_def then_do_Done_iff split: if_splits)
    then have out: "out = []" using arr fread_array_out by blast
    let ?warn = "if sint (nk_num_subkeys root) \<noteq> sint (lh_num_entries lh)
        then [Warn (sint (nk_num_subkeys root)) (sint (lh_num_entries lh))] else []"
    let ?offs = "map (\<lambda>e. u32_at e 0) hashes"
    have offs: "subkey_offsets heap regf root = ?offs"
      using False lh True n arr st by (simp add: subkey_offsets_def list_offsets_def)
    have eq: "subtree_body rec heap regf root
        = (?warn @ fst (nk_loop 0 rec heap regf ?offs), snd (nk_loop 0 rec heap regf ?offs))"
      using nl lh True n arr st out by (simp add: subtree_body_def comp_def)
    with assms have d: "snd (nk_loop 0 rec heap regf ?offs) = Done ()" by simp
    from nk_loop_Done [OF d] eq offs show ?thesis
      by (intro exI [of _ ?warn]) (simp add: subkeys_of_def)
  next
    case notlh: False
    with assms nl lh have ri: "lh_signature lh = sig_ri"
      by (auto simp add: subtree_body_def split: if_splits)
    obtain out st where arr: "fread_array heap regf ?pos 4 (lh_num_entries lh) = (out, st)"
      by (cases "fread_array heap regf ?pos 4 (lh_num_entries lh)")
    with assms nl lh notlh ri obtain lis where st: "st = Done lis"
      by (cases st) (auto simp add: subtree_body_def)
    then have out: "out = []" using arr fread_array_out by blast
    let ?lis = "map (\<lambda>e. u32_at e 0) lis"
    have offs: "subkey_offsets heap regf root = concat (map (secondary_offsets heap regf) ?lis)"
      using False lh notlh ri arr st by (simp add: subkey_offsets_def list_offsets_def)
    have eq: "subtree_body rec heap regf root = ri_loop rec heap regf ?lis"
      using nl lh notlh ri arr st out by (simp add: subtree_body_def)
    with assms have d: "snd (ri_loop rec heap regf ?lis) = Done ()" by simp
    from ri_loop_Done [OF d] eq offs show ?thesis
      by (intro exI [of _ "[]"]) (simp add: subkeys_of_def)
  qed
qed


lemma grants_smallD: "grants_small heap \<Longrightarrow> m \<le> 262144 \<Longrightarrow> heap m"
  by (simp add: grants_small_def)

lemma name_len_small: "unat (nk_name_len k) + 1 \<le> 262144"
  using unsigned_less [of "nk_name_len k", where ?'a = nat] by simp

lemma count_small: "0 \<le> sint (n :: u16) \<Longrightarrow> nat (sint n) * 8 \<le> 262144"
  using sint_lt [of n] by simp

lemma direct_walk:
  assumes nl: "\<not> is_leaf root"
    and pos: "pos = unat (convOff (nk_subkeys root))"
    and lh: "fread_LH regf pos = Some lh"
    and sig: "lh_signature lh = sig_lh \<or> lh_signature lh = sig_lf"
    and n: "0 \<le> sint (lh_num_entries lh)" and N: "N = nat (sint (lh_num_entries lh))"
    and heap: "grants_small heap"
    and len: "pos + 4 + 8 * N \<le> length regf"
  shows "printSubTree (Suc fuel) heap regf root level =
     (KeyName level (printed_name root)
        # (if sint (nk_num_subkeys root) \<noteq> sint (lh_num_entries lh)
           then [Warn (sint (nk_num_subkeys root)) (sint (lh_num_entries lh))] else [])
        @ fst (nk_loop 0 (\<lambda>next. printSubTree fuel heap regf next (level + 1)) heap regf
                 (map (\<lambda>i. u32_at regf (pos + 4 + 8 * i)) [0..<N])),
      snd (nk_loop 0 (\<lambda>next. printSubTree fuel heap regf next (level + 1)) heap regf
             (map (\<lambda>i. u32_at regf (pos + 4 + 8 * i)) [0..<N])))"
proof -
  have h8: "heap (N * 8)"
    using heap count_small [OF n] N by (simp add: grants_smallD)
  have len': "pos + 4 + N * 8 \<le> length regf" using len by (simp add: mult.commute)
  have arr: "fread_array heap regf pos 8 (lh_num_entries lh)
      = ([], Done (chop 8 N (drop (pos + 4) regf)))"
    unfolding N using n h8 len' by (intro fread_array_full) (simp_all add: N)
  have offs: "map (\<lambda>e. u32_at e 0) (chop 8 N (drop (pos + 4) regf))
      = map (\<lambda>i. u32_at regf (pos + 4 + 8 * i)) [0..<N]"
    using len by (intro chop_offsets) simp_all
  have name: "heap (unat (nk_name_len root) + 1)"
    using heap name_len_small by (rule grants_smallD)
  from printSubTree_direct [OF nl lh [unfolded pos] sig n name arr [unfolded pos], of fuel level]
  show ?thesis unfolding offs [unfolded pos] pos .
qed

lemma leaf_walk:
  assumes "grants_small heap" and "is_leaf k"
  shows "printSubTree (Suc fuel) heap regf k level = ([KeyName level (printed_name k)], Done ())"
proof -
  have "heap (unat (nk_name_len k) + 1)"
    using assms(1) name_len_small by (rule grants_smallD)
  with assms(2) show ?thesis by (rule printSubTree_leaf)
qed


lemma upt_0_2: "[0..<2] = [0, 1]"
  by (simp add: numeral_2_eq_2)

lemma grants_small_ptrdiff: "grants_small heap_ptrdiff"
  by (simp add: grants_small_def heap_ptrdiff_def)

lemma root_key_fields:
  "nk_num_subkeys (root_key c) = ucast c" "nk_subkeys (root_key c) = 0x78"
  "nk_name_len (root_key c) = 4" "printed_name (root_key c) = name_ROOT"
  by (simp_all add: root_key_def nk_value_def printed_name_def name_ROOT_def)

lemma root_key_pos: "unat (convOff (nk_subkeys (root_key c))) = 4220"
  by (simp add: root_key_fields convOff_def)

lemma leaf_fields:
  "is_leaf (nk_value 0x20 0 0 name)" "length name < 256 \<Longrightarrow> 0 \<notin> set name \<Longrightarrow>
     printed_name (nk_value 0x20 0 0 name) = name"
  by (auto simp add: is_leaf_def nk_value_def printed_name_def takeWhile_eq_all_conv)

lemma fread_root:
  "heap 83 \<Longrightarrow> fread_NK heap (hive (root_cell c @ cell len data pad @ rest)) 4132 = Some (root_key c)"
  unfolding root_key_def
  by (rule fread_NK_drop [OF drop_root]) (simp_all add: name_ROOT_def length_cell)

lemma family_index:
  "fread_LH (family_hive c) 4220 = Some \<lparr> lh_signature = sig_lh, lh_num_entries = 2 \<rparr>"
proof -
  have "drop 4220 (family_hive c)
      = 0x6C # 0x68 # 2 # 0 # drop 4 family_list @ replicate 0 0 @ cell_A @ cell_B"
    unfolding family_hive_def by (simp add: drop_index) (simp add: family_list_def)
  from fread_LH_drop [OF this] show ?thesis by (simp add: sig_lh_def le16_def)
qed

lemma family_entries:
  "u32_at (family_hive c) 4224 = 0x90" "u32_at (family_hive c) 4232 = 0xE8"
proof -
  have d: "drop 4220 (family_hive c) = family_list @ replicate 0 0 @ cell_A @ cell_B"
    unfolding family_hive_def by (simp add: drop_index)
  have "drop 4224 (family_hive c) = drop 4 (drop 4220 (family_hive c))"
    and "drop 4232 (family_hive c) = drop 12 (drop 4220 (family_hive c))"
    by simp_all
  then have "drop 4224 (family_hive c) = 0x90 # 0 # 0 # 0 # drop 8 family_list @ cell_A @ cell_B"
    and "drop 4232 (family_hive c) = 0xE8 # 0 # 0 # 0 # drop 16 family_list @ cell_A @ cell_B"
    unfolding d by (simp_all add: family_list_def)
  then show "u32_at (family_hive c) 4224 = 0x90" "u32_at (family_hive c) 4232 = 0xE8"
    by (simp_all add: u32_at_drop le32_def)
qed

lemma family_kids:
  assumes "heap 80"
  shows "fread_NK heap (family_hive c) 4244 = Some (nk_value 0x20 0 0 name_A)"
    and "fread_NK heap (family_hive c) 4332 = Some (nk_value 0x20 0 0 name_B)"
proof -
  show "fread_NK heap (family_hive c) 4244 = Some (nk_value 0x20 0 0 name_A)"
    by (rule fread_NK_drop [OF family_drop_A]) (use assms in \<open>simp_all add: name_A_def length_cell_B\<close>)
  show "fread_NK heap (family_hive c) 4332 = Some (nk_value 0x20 0 0 name_B)"
    by (rule fread_NK_drop [OF family_drop_B]) (use assms in \<open>simp_all add: name_B_def\<close>)
qed

text \<open>
  Claim C6. Let the subkey index of a key node be an \<open>lh\<close> or \<open>lf\<close> list whose entry count
  \<open>N\<close> is not negative and differs from the node's subkey count, with its \<open>N\<close> entries inside
  the file and an allocator that grants small requests. Then the walk prints the node's
  name, one warning, and goes on to the loop over the \<open>N\<close> stored offsets: the mismatch ends
  nothing. When the \<open>N\<close> key nodes can be read and their walks complete, the walk is the
  name, the warning and the output for the \<open>N\<close> children in order, and it completes.
\<close>

theorem count_mismatch_warns_once:
  assumes "\<not> is_leaf root"
    and "pos = unat (convOff (nk_subkeys root))"
    and "fread_LH regf pos = Some lh"
    and "lh_signature lh = sig_lh \<or> lh_signature lh = sig_lf"
    and "0 \<le> sint (lh_num_entries lh)" and "N = nat (sint (lh_num_entries lh))"
    and "sint (nk_num_subkeys root) \<noteq> sint (lh_num_entries lh)"
    and "grants_small heap"
    and "pos + 4 + 8 * N \<le> length regf"
  shows "printSubTree (Suc fuel) heap regf root level =
           (KeyName level (printed_name root)
              # Warn (sint (nk_num_subkeys root)) (sint (lh_num_entries lh))
              # fst (nk_loop 0 (\<lambda>next. printSubTree fuel heap regf next (level + 1)) heap regf
                       (map (\<lambda>i. u32_at regf (pos + 4 + 8 * i)) [0..<N])),
            snd (nk_loop 0 (\<lambda>next. printSubTree fuel heap regf next (level + 1)) heap regf
                   (map (\<lambda>i. u32_at regf (pos + 4 + 8 * i)) [0..<N]))) \<and>
         (map (\<lambda>i. fread_NK heap regf (unat (convOff (u32_at regf (pos + 4 + 8 * i))))) [0..<N]
              = map Some kids \<and>
          (\<forall>k \<in> set kids. snd (printSubTree fuel heap regf k (level + 1)) = Done ()) \<longrightarrow>
            length kids = N \<and>
            printSubTree (Suc fuel) heap regf root level =
              (KeyName level (printed_name root)
                 # Warn (sint (nk_num_subkeys root)) (sint (lh_num_entries lh))
                 # concat (map (\<lambda>k. fst (printSubTree fuel heap regf k (level + 1))) kids),
               Done ()))"
proof (intro conjI impI)
  let ?offs = "map (\<lambda>i. u32_at regf (pos + 4 + 8 * i)) [0..<N]"
  let ?rec = "\<lambda>next. printSubTree fuel heap regf next (level + 1)"
  show walk: "printSubTree (Suc fuel) heap regf root level =
           (KeyName level (printed_name root)
              # Warn (sint (nk_num_subkeys root)) (sint (lh_num_entries lh))
              # fst (nk_loop 0 ?rec heap regf ?offs),
            snd (nk_loop 0 ?rec heap regf ?offs))"
    using direct_walk [OF assms(1-6) assms(8,9), of fuel level] assms(7) by simp
  assume kids: "map (\<lambda>i. fread_NK heap regf (unat (convOff (u32_at regf (pos + 4 + 8 * i))))) [0..<N]
              = map Some kids \<and>
          (\<forall>k \<in> set kids. snd (printSubTree fuel heap regf k (level + 1)) = Done ())"
  then have "length (map Some kids) = length [0..<N]" by (metis length_map)
  then show "length kids = N" by simp
  have reads: "map (\<lambda>off. fread_NK heap regf (unat (convOff off))) ?offs = map Some kids"
    using kids by (simp add: comp_def)
  have "nk_loop 0 ?rec heap regf ?offs = (concat (map (\<lambda>k. fst (?rec k)) kids), Done ())"
    using reads kids assms(8) by (intro nk_loop_complete) (simp_all add: grants_smallD)
  then show "printSubTree (Suc fuel) heap regf root level =
              (KeyName level (printed_name root)
                 # Warn (sint (nk_num_subkeys root)) (sint (lh_num_entries lh))
                 # concat (map (\<lambda>k. fst (printSubTree fuel heap regf k (level + 1))) kids),
               Done ())"
    unfolding walk by simp
qed

lemma leaf_A_walk:
  "grants_small heap \<Longrightarrow>
   printSubTree (Suc fuel) heap regf (nk_value 0x20 0 0 name_A) level
     = ([KeyName level name_A], Done ())"
  using leaf_walk [OF _ leaf_fields(1), of heap fuel regf name_A level]
  by (simp add: leaf_fields(2) name_A_def del: printSubTree.simps)

lemma leaf_B_walk:
  "grants_small heap \<Longrightarrow>
   printSubTree (Suc fuel) heap regf (nk_value 0x20 0 0 name_B) level
     = ([KeyName level name_B], Done ())"
  using leaf_walk [OF _ leaf_fields(1), of heap fuel regf name_B level]
  by (simp add: leaf_fields(2) name_B_def del: printSubTree.simps)

theorem count_mismatch_warns_once_witness:
  "fread_NK heap_ptrdiff (family_hive 3) 4132 = Some (root_key 3) \<and>
   sint (nk_num_subkeys (root_key 3)) = 3 \<and>
   fread_LH (family_hive 3) 4220 = Some \<lparr> lh_signature = sig_lh, lh_num_entries = 2 \<rparr> \<and>
   printSubTree 2 heap_ptrdiff (family_hive 3) (root_key 3) 0
     = ([KeyName 0 name_ROOT, Warn 3 2, KeyName 1 name_A, KeyName 1 name_B], Done ())"
proof -
  let ?lh = "\<lparr> lh_signature = sig_lh, lh_num_entries = 2 \<rparr>"
  let ?kids = "[nk_value 0x20 0 0 name_A, nk_value 0x20 0 0 name_B]"
  have h80: "heap_ptrdiff 80" and h83: "heap_ptrdiff 83" by (simp_all add: heap_ptrdiff_def)
  have root: "fread_NK heap_ptrdiff (family_hive 3) 4132 = Some (root_key 3)"
    unfolding family_hive_def using h83 by (rule fread_root)
  have nl: "\<not> is_leaf (root_key 3)" by (simp add: is_leaf_def root_key_fields)
  have pos: "4220 = unat (convOff (nk_subkeys (root_key 3)))" by (simp add: root_key_pos)
  have sig: "lh_signature ?lh = sig_lh \<or> lh_signature ?lh = sig_lf" by simp
  have n: "0 \<le> sint (lh_num_entries ?lh)" and N: "2 = nat (sint (lh_num_entries ?lh))"
    and ne: "sint (nk_num_subkeys (root_key 3)) \<noteq> sint (lh_num_entries ?lh)"
    and three: "sint (nk_num_subkeys (root_key 3)) = 3"
    and two: "sint (lh_num_entries ?lh) = 2"
    by (simp_all add: root_key_fields)
  have len: "4220 + 4 + 8 * 2 \<le> length (family_hive 3)" by (simp add: length_family_hive)
  have kids: "map (\<lambda>i. fread_NK heap_ptrdiff (family_hive 3)
        (unat (convOff (u32_at (family_hive 3) (4220 + 4 + 8 * i))))) [0..<2] = map Some ?kids"
    by (simp add: upt_0_2 family_entries convOff_def family_kids h80)
  have A: "printSubTree (Suc 0) heap_ptrdiff (family_hive 3) (nk_value 0x20 0 0 name_A) (0 + 1)
      = ([KeyName 1 name_A], Done ())"
    and B: "printSubTree (Suc 0) heap_ptrdiff (family_hive 3) (nk_value 0x20 0 0 name_B) (0 + 1)
      = ([KeyName 1 name_B], Done ())"
    by (simp_all only: leaf_A_walk [OF grants_small_ptrdiff] leaf_B_walk [OF grants_small_ptrdiff]
        add_0)
  have leaves: "\<forall>k \<in> set ?kids.
      snd (printSubTree (Suc 0) heap_ptrdiff (family_hive 3) k (0 + 1)) = Done ()"
    by (simp only: list.set ball_simps A B snd_conv simp_thms)
  from count_mismatch_warns_once [OF nl pos family_index sig n N ne grants_small_ptrdiff len,
      of "Suc 0" 0 ?kids, THEN conjunct2, THEN mp, OF conjI [OF kids leaves], THEN conjunct2]
  have "printSubTree (Suc (Suc 0)) heap_ptrdiff (family_hive 3) (root_key 3) 0
     = ([KeyName 0 name_ROOT, Warn 3 2, KeyName 1 name_A, KeyName 1 name_B], Done ())"
    by (simp only: list.map concat.simps A B fst_conv three two root_key_fields(4) append.simps)
  then have "printSubTree 2 heap_ptrdiff (family_hive 3) (root_key 3) 0
     = ([KeyName 0 name_ROOT, Warn 3 2, KeyName 1 name_A, KeyName 1 name_B], Done ())"
    by (simp only: numeral_2_eq_2)
  with root three show ?thesis by (simp only: family_index simp_thms)
qed

section \<open>Order of the walk\<close>

lemma key_lines_concat:
  "filter is_KeyName (concat (map f ks)) = concat (map (\<lambda>k. filter is_KeyName (f k)) ks)"
  by (induction ks) simp_all

lemma filter_warn:
  "warn = [] \<or> (\<exists>a b. warn = [Warn a b]) \<Longrightarrow> filter is_KeyName warn = []"
  by auto

lemma printSubTree_Done:
  assumes "snd (printSubTree (Suc fuel) heap regf root level) = Done ()"
  shows "\<exists>warn. (warn = [] \<or> (\<exists>a b. warn = [Warn a b])) \<and>
           fst (printSubTree (Suc fuel) heap regf root level)
             = KeyName level (printed_name root) # warn
                 @ concat (map (\<lambda>k. fst (printSubTree fuel heap regf k (level + 1)))
                     (subkeys_of heap regf root)) \<and>
           (\<forall>k \<in> set (subkeys_of heap regf root).
              snd (printSubTree fuel heap regf k (level + 1)) = Done ())"
proof -
  let ?rec = "\<lambda>next. printSubTree fuel heap regf next (level + 1)"
  from assms have d: "snd (then_do (printNKName heap root level)
      (subtree_body ?rec heap regf root)) = Done ()"
    by (simp only: printSubTree_body)
  then have name: "snd (printNKName heap root level) = Done ()"
    and body: "snd (subtree_body ?rec heap regf root) = Done ()"
    by (simp_all only: then_do_Done_iff)
  from name have pn: "printNKName heap root level = ([KeyName level (printed_name root)], Done ())"
    by (auto simp add: printNKName_def printed_name_def split: if_splits)
  from subtree_body_Done [OF body] obtain warn where
    w: "warn = [] \<or> (\<exists>a b. warn = [Warn a b])"
    and out: "fst (subtree_body ?rec heap regf root)
             = warn @ concat (map (\<lambda>k. fst (?rec k)) (subkeys_of heap regf root))"
    and kids: "\<forall>k \<in> set (subkeys_of heap regf root). snd (?rec k) = Done ()"
    by blast
  have "fst (printSubTree (Suc fuel) heap regf root level)
      = KeyName level (printed_name root) # warn
          @ concat (map (\<lambda>k. fst (?rec k)) (subkeys_of heap regf root))"
    unfolding printSubTree_body pn using body out by (simp add: then_do_def)
  with w kids show ?thesis by blast
qed

text \<open>
  Claim C8. Whenever the walk of a node completes, the key names it prints are the node's
  own line followed by the lines of the walks of its subkeys, one subkey after the other
  in the order of the index record. In particular, for a node whose \<open>lh\<close> or \<open>lf\<close> list has
  \<open>N\<close> entries that point to leaf nodes, the walk prints \<open>N + 1\<close> names: the node at its
  depth, then the \<open>N\<close> children one level deeper in stored order.
\<close>

theorem walk_preorder_stored_order:
  "(snd (printSubTree (Suc fuel) heap regf root level) = Done () \<longrightarrow>
      key_lines (printSubTree (Suc fuel) heap regf root level)
        = KeyName level (printed_name root)
            # concat (map (\<lambda>k. key_lines (printSubTree fuel heap regf k (level + 1)))
                (subkeys_of heap regf root))) \<and>
   (\<not> is_leaf root \<and> pos = unat (convOff (nk_subkeys root)) \<and> fread_LH regf pos = Some lh \<and>
    (lh_signature lh = sig_lh \<or> lh_signature lh = sig_lf) \<and>
    0 \<le> sint (lh_num_entries lh) \<and> N = nat (sint (lh_num_entries lh)) \<and>
    grants_small heap \<and> pos + 4 + 8 * N \<le> length regf \<and>
    map (\<lambda>i. fread_NK heap regf (unat (convOff (u32_at regf (pos + 4 + 8 * i))))) [0..<N]
      = map Some kids \<and>
    list_all is_leaf kids \<longrightarrow>
      length kids = N \<and>
      snd (printSubTree (Suc (Suc fuel)) heap regf root level) = Done () \<and>
      key_lines (printSubTree (Suc (Suc fuel)) heap regf root level)
        = KeyName level (printed_name root)
            # map (\<lambda>k. KeyName (level + 1) (printed_name k)) kids)"
proof (intro conjI impI)
  assume "snd (printSubTree (Suc fuel) heap regf root level) = Done ()"
  from printSubTree_Done [OF this] obtain warn where
    w: "warn = [] \<or> (\<exists>a b. warn = [Warn a b])"
    and out: "fst (printSubTree (Suc fuel) heap regf root level)
             = KeyName level (printed_name root) # warn
                 @ concat (map (\<lambda>k. fst (printSubTree fuel heap regf k (level + 1)))
                     (subkeys_of heap regf root))"
    by blast
  show "key_lines (printSubTree (Suc fuel) heap regf root level)
        = KeyName level (printed_name root)
            # concat (map (\<lambda>k. key_lines (printSubTree fuel heap regf k (level + 1)))
                (subkeys_of heap regf root))"
    unfolding key_lines_def out
    by (simp add: filter_warn [OF w] key_lines_concat del: printSubTree.simps)
next
  assume h: "\<not> is_leaf root \<and> pos = unat (convOff (nk_subkeys root)) \<and> fread_LH regf pos = Some lh \<and>
    (lh_signature lh = sig_lh \<or> lh_signature lh = sig_lf) \<and>
    0 \<le> sint (lh_num_entries lh) \<and> N = nat (sint (lh_num_entries lh)) \<and>
    grants_small heap \<and> pos + 4 + 8 * N \<le> length regf \<and>
    map (\<lambda>i. fread_NK heap regf (unat (convOff (u32_at regf (pos + 4 + 8 * i))))) [0..<N]
      = map Some kids \<and>
    list_all is_leaf kids"
  let ?offs = "map (\<lambda>i. u32_at regf (pos + 4 + 8 * i)) [0..<N]"
  let ?rec = "\<lambda>next. printSubTree (Suc fuel) heap regf next (level + 1)"
  from h have nl: "\<not> is_leaf root" and pos: "pos = unat (convOff (nk_subkeys root))"
    and lh: "fread_LH regf pos = Some lh"
    and sig: "lh_signature lh = sig_lh \<or> lh_signature lh = sig_lf"
    and n: "0 \<le> sint (lh_num_entries lh)" and N: "N = nat (sint (lh_num_entries lh))"
    and heap: "grants_small heap" and len: "pos + 4 + 8 * N \<le> length regf"
    and km: "map (\<lambda>i. fread_NK heap regf (unat (convOff (u32_at regf (pos + 4 + 8 * i))))) [0..<N]
      = map Some kids"
    and leaves: "list_all is_leaf kids"
    by blast+
  from km have "length (map Some kids) = length [0..<N]" by (metis length_map)
  then show "length kids = N" by simp
  have reads: "map (\<lambda>off. fread_NK heap regf (unat (convOff off))) ?offs = map Some kids"
    using km by (simp only: map_map comp_def)
  have rec: "?rec k = ([KeyName (level + 1) (printed_name k)], Done ())" if "k \<in> set kids" for k
    using heap leaves that by (intro leaf_walk) (simp_all add: list_all_iff)
  have "nk_loop 0 ?rec heap regf ?offs = (concat (map (\<lambda>k. fst (?rec k)) kids), Done ())"
    using reads heap rec by (intro nk_loop_complete) (simp_all add: grants_smallD)
  also have "concat (map (\<lambda>k. fst (?rec k)) kids)
      = map (\<lambda>k. KeyName (level + 1) (printed_name k)) kids"
    using rec by (induction kids) (simp_all del: printSubTree.simps)
  finally have loop: "nk_loop 0 ?rec heap regf ?offs
      = (map (\<lambda>k. KeyName (level + 1) (printed_name k)) kids, Done ())" .
  have walk: "printSubTree (Suc (Suc fuel)) heap regf root level =
     (KeyName level (printed_name root)
        # (if sint (nk_num_subkeys root) \<noteq> sint (lh_num_entries lh)
           then [Warn (sint (nk_num_subkeys root)) (sint (lh_num_entries lh))] else [])
        @ map (\<lambda>k. KeyName (level + 1) (printed_name k)) kids, Done ())"
    using direct_walk [OF nl pos lh sig n N heap len, of "Suc fuel" level]
    unfolding loop by (simp only: fst_conv snd_conv)
  show "snd (printSubTree (Suc (Suc fuel)) heap regf root level) = Done ()"
    unfolding walk by simp
  show "key_lines (printSubTree (Suc (Suc fuel)) heap regf root level)
        = KeyName level (printed_name root)
            # map (\<lambda>k. KeyName (level + 1) (printed_name k)) kids"
    unfolding walk key_lines_def by (simp add: filter_map comp_def)
qed

lemma direct_subkeys:
  assumes nl: "\<not> is_leaf root"
    and pos: "pos = unat (convOff (nk_subkeys root))"
    and lh: "fread_LH regf pos = Some lh"
    and sig: "lh_signature lh = sig_lh \<or> lh_signature lh = sig_lf"
    and n: "0 \<le> sint (lh_num_entries lh)" and N: "N = nat (sint (lh_num_entries lh))"
    and heap: "grants_small heap"
    and len: "pos + 4 + 8 * N \<le> length regf"
    and km: "map (\<lambda>i. fread_NK heap regf (unat (convOff (u32_at regf (pos + 4 + 8 * i))))) [0..<N]
      = map Some kids"
  shows "subkeys_of heap regf root = kids"
proof -
  have h8: "heap (N * 8)"
    using heap count_small [OF n] N by (simp add: grants_smallD)
  have len': "pos + 4 + N * 8 \<le> length regf" using len by (simp add: mult.commute)
  have arr: "fread_array heap regf pos 8 (lh_num_entries lh)
      = ([], Done (chop 8 N (drop (pos + 4) regf)))"
    unfolding N using n h8 len' by (intro fread_array_full) (simp_all add: N)
  have offs: "map (\<lambda>e. u32_at e 0) (chop 8 N (drop (pos + 4) regf))
      = map (\<lambda>i. u32_at regf (pos + 4 + 8 * i)) [0..<N]"
    using len by (intro chop_offsets) simp_all
  have "subkey_offsets heap regf root = map (\<lambda>i. u32_at regf (pos + 4 + 8 * i)) [0..<N]"
    using nl lh [unfolded pos] sig n arr [unfolded pos] offs
    by (simp add: subkey_offsets_def list_offsets_def pos)
  moreover have "map (\<lambda>off. fread_NK heap regf (unat (convOff off)))
      (map (\<lambda>i. u32_at regf (pos + 4 + 8 * i)) [0..<N]) = map Some kids"
    using km by (simp only: map_map comp_def)
  ultimately show ?thesis
    unfolding subkeys_of_def by (simp only: map_filter_map_Some)
qed

theorem walk_preorder_stored_order_witness:
  "fread_NK heap_ptrdiff (family_hive 2) 4132 = Some (root_key 2) \<and>
   subkeys_of heap_ptrdiff (family_hive 2) (root_key 2)
     = [nk_value 0x20 0 0 name_A, nk_value 0x20 0 0 name_B] \<and>
   snd (printSubTree 2 heap_ptrdiff (family_hive 2) (root_key 2) 0) = Done () \<and>
   key_lines (printSubTree 2 heap_ptrdiff (family_hive 2) (root_key 2) 0)
     = [KeyName 0 name_ROOT, KeyName 1 name_A, KeyName 1 name_B]"
proof -
  let ?lh = "\<lparr> lh_signature = sig_lh, lh_num_entries = 2 \<rparr>"
  let ?kids = "[nk_value 0x20 0 0 name_A, nk_value 0x20 0 0 name_B]"
  let ?f = "family_hive 2"
  have h80: "heap_ptrdiff 80" and h83: "heap_ptrdiff 83" by (simp_all add: heap_ptrdiff_def)
  have root: "fread_NK heap_ptrdiff ?f 4132 = Some (root_key 2)"
    unfolding family_hive_def using h83 by (rule fread_root)
  have nl: "\<not> is_leaf (root_key 2)" by (simp add: is_leaf_def root_key_fields)
  have pos: "4220 = unat (convOff (nk_subkeys (root_key 2)))" by (simp add: root_key_pos)
  have sig: "lh_signature ?lh = sig_lh \<or> lh_signature ?lh = sig_lf" by simp
  have n: "0 \<le> sint (lh_num_entries ?lh)" and N: "2 = nat (sint (lh_num_entries ?lh))"
    by simp_all
  have len: "4220 + 4 + 8 * 2 \<le> length ?f" by (simp add: length_family_hive)
  have kids: "map (\<lambda>i. fread_NK heap_ptrdiff ?f
        (unat (convOff (u32_at ?f (4220 + 4 + 8 * i))))) [0..<2] = map Some ?kids"
    by (simp add: upt_0_2 family_entries convOff_def family_kids h80)
  have leaves: "list_all is_leaf ?kids" by (simp add: leaf_fields(1))
  have sub: "subkeys_of heap_ptrdiff ?f (root_key 2) = ?kids"
    using nl pos family_index sig n N grants_small_ptrdiff len kids by (rule direct_subkeys)
  have A: "printSubTree (Suc 0) heap_ptrdiff ?f (nk_value 0x20 0 0 name_A) (0 + 1)
      = ([KeyName 1 name_A], Done ())"
    and B: "printSubTree (Suc 0) heap_ptrdiff ?f (nk_value 0x20 0 0 name_B) (0 + 1)
      = ([KeyName 1 name_B], Done ())"
    by (simp_all only: leaf_A_walk [OF grants_small_ptrdiff] leaf_B_walk [OF grants_small_ptrdiff]
        add_0)
  from walk_preorder_stored_order [of 0 heap_ptrdiff ?f "root_key 2" 0 4220 ?lh 2 ?kids,
      THEN conjunct2, THEN mp]
  have fin: "snd (printSubTree (Suc (Suc 0)) heap_ptrdiff ?f (root_key 2) 0) = Done ()"
    using nl pos family_index sig n N grants_small_ptrdiff len kids leaves by blast
  from walk_preorder_stored_order [of "Suc 0" heap_ptrdiff ?f "root_key 2" 0,
      THEN conjunct1, THEN mp, OF fin]
  have "key_lines (printSubTree (Suc (Suc 0)) heap_ptrdiff ?f (root_key 2) 0)
     = [KeyName 0 name_ROOT, KeyName 1 name_A, KeyName 1 name_B]"
    by (simp only: sub list.map concat.simps A B key_lines_def fst_conv root_key_fields(4)
        append.simps filter.simps is_KeyName.simps if_True)
  with fin root sub show ?thesis by (simp only: numeral_2_eq_2 simp_thms)
qed

section \<open>Fuel: when the recursion ends\<close>



lemma fread_array_events:
  "e \<in> set (fst (fread_array heap regf pos sz n)) \<Longrightarrow> \<not> is_Warn e \<and> \<not> is_KeyName e"
  by (auto simp add: fread_array_def Let_def split: if_splits)

lemma ri_loop_Cons_cases:
  obtains (fail) r where "snd r = Undefined \<or> (\<exists>c. snd r = Exit c)"
      and "\<And>rec. ri_loop rec heap regf (li # lis) = r"
      and "\<And>e. e \<in> set (fst r) \<Longrightarrow> \<not> is_Warn e \<and> \<not> is_KeyName e"
  | (list) "\<And>rec. ri_loop rec heap regf (li # lis)
        = then_do (nk_loop 1 rec heap regf (secondary_offsets heap regf li))
            (ri_loop rec heap regf lis)"
proof (cases "fread_LH regf (unat (convOff li))")
  case None
  then have "ri_loop rec heap regf (li # lis) = ([], Undefined)" for rec by simp
  then show ?thesis by (intro fail [of "([], Undefined)"]) simp_all
next
  case (Some lh2)
  let ?pos = "unat (convOff li)"
  { fix sz :: nat
    assume so: "\<And>items. snd (fread_array heap regf ?pos sz (lh_num_entries lh2)) = Done items
        \<Longrightarrow> secondary_offsets heap regf li = map (\<lambda>e. u32_at e 0) items"
    assume eq: "\<And>rec. ri_loop rec heap regf (li # lis) =
        (case fread_array heap regf ?pos sz (lh_num_entries lh2) of
           (out, Done items) \<Rightarrow>
             then_do (out, Done ())
               (then_do (nk_loop 1 rec heap regf (map (\<lambda>e. u32_at e 0) items))
                  (ri_loop rec heap regf lis))
         | (out, Exit c) \<Rightarrow> (out, Exit c)
         | (out, Undefined) \<Rightarrow> (out, Undefined)
         | (out, OutOfFuel) \<Rightarrow> (out, OutOfFuel))"
    obtain out st where arr: "fread_array heap regf ?pos sz (lh_num_entries lh2) = (out, st)"
      by (cases "fread_array heap regf ?pos sz (lh_num_entries lh2)")
    have ?thesis
    proof (cases st)
      case (Done items)
      then have out: "out = []" using arr fread_array_out by blast
      have "secondary_offsets heap regf li = map (\<lambda>e. u32_at e 0) items"
        using so arr Done by simp
      then have "ri_loop rec heap regf (li # lis)
          = then_do (nk_loop 1 rec heap regf (secondary_offsets heap regf li))
              (ri_loop rec heap regf lis)" for rec
        unfolding eq arr Done out by simp
      then show ?thesis by (rule list)
    next
      case (Exit c)
      then have "ri_loop rec heap regf (li # lis) = (out, Exit c)" for rec
        unfolding eq arr by simp
      moreover have "\<not> is_Warn e \<and> \<not> is_KeyName e" if "e \<in> set out" for e
        using fread_array_events [of e heap regf ?pos sz "lh_num_entries lh2"] that arr by simp
      ultimately show ?thesis by (intro fail [of "(out, Exit c)"]) simp_all
    next
      case Undefined
      then have "ri_loop rec heap regf (li # lis) = (out, Undefined)" for rec
        unfolding eq arr by simp
      moreover have "\<not> is_Warn e \<and> \<not> is_KeyName e" if "e \<in> set out" for e
        using fread_array_events [of e heap regf ?pos sz "lh_num_entries lh2"] that arr by simp
      ultimately show ?thesis by (intro fail [of "(out, Undefined)"]) simp_all
    next
      case OutOfFuel
      with arr fread_array_not_fuel [of heap regf ?pos sz "lh_num_entries lh2"]
      show ?thesis by simp
    qed }
  note arr_case = this
  show ?thesis
  proof (cases "lh_signature lh2 = sig_lh \<or> lh_signature lh2 = sig_lf")
    case True
    show ?thesis
    proof (rule arr_case [of 8])
      show "secondary_offsets heap regf li = map (\<lambda>e. u32_at e 0) items"
        if "snd (fread_array heap regf ?pos 8 (lh_num_entries lh2)) = Done items" for items
        using Some True that by (simp add: secondary_offsets_def list_offsets_def)
    qed (use Some True in \<open>simp add: comp_def del: then_do_Done\<close>)
  next
    case False
    show ?thesis
    proof (cases "lh_signature lh2 = sig_li")
      case li: True
      show ?thesis
      proof (rule arr_case [of 4])
        show "secondary_offsets heap regf li = map (\<lambda>e. u32_at e 0) items"
          if "snd (fread_array heap regf ?pos 4 (lh_num_entries lh2)) = Done items" for items
          using Some False li that by (simp add: secondary_offsets_def list_offsets_def)
      qed (use Some False li in \<open>simp del: then_do_Done\<close>)
    next
      case nli: False
      with Some False have "ri_loop rec heap regf (li # lis)
          = ([Msg ''Fatal: encountered unknown subentry of ri list''], Exit 1)" for rec
        by simp
      then show ?thesis
        by (intro fail [of "([Msg ''Fatal: encountered unknown subentry of ri list''], Exit 1)"])
          simp_all
    qed
  qed
qed


























section \<open>The path through an ri record\<close>

lemma sig_distinct:
  "sig_ri \<noteq> sig_lh" "sig_ri \<noteq> sig_lf" "sig_li \<noteq> sig_lh" "sig_li \<noteq> sig_lf" "sig_ri \<noteq> sig_li"
  by (simp_all add: sig_ri_def sig_lh_def sig_lf_def sig_li_def)

lemma nk_loop_events:
  "e \<in> set (fst (nk_loop code rec heap regf offs)) \<Longrightarrow>
   \<exists>k \<in> set (List.map_filter (\<lambda>off. fread_NK heap regf (unat (convOff off))) offs).
      e \<in> set (fst (rec k))"
proof (induction offs)
  case Nil
  then show ?case by simp
next
  case (Cons off offs)
  let ?f = "\<lambda>off. fread_NK heap regf (unat (convOff off))"
  from Cons.prems have heap: "heap 80" by (auto split: if_splits)
  with Cons.prems obtain k where k: "?f off = Some k" by (auto split: option.splits)
  then have mf: "List.map_filter ?f (off # offs) = k # List.map_filter ?f offs"
    by (rule map_filter_Cons_Some)
  from Cons.prems heap k
  have "e \<in> set (fst (then_do (rec k) (nk_loop code rec heap regf offs)))" by simp
  then have "e \<in> set (fst (rec k)) \<or> e \<in> set (fst (nk_loop code rec heap regf offs))"
    by (cases "snd (rec k)") (auto simp add: then_do_def)
  with Cons.IH show ?case unfolding mf by auto
qed

lemma ri_loop_events:
  assumes "e \<in> set (fst (ri_loop rec heap regf lis))" and "is_Warn e \<or> is_KeyName e"
  shows "\<exists>k \<in> set (List.map_filter (\<lambda>off. fread_NK heap regf (unat (convOff off)))
                   (concat (map (secondary_offsets heap regf) lis))).
           e \<in> set (fst (rec k))"
  using assms(1)
proof (induction lis)
  case Nil
  then show ?case by simp
next
  case (Cons li lis)
  show ?case
  proof (cases rule: ri_loop_Cons_cases [where heap = heap and regf = regf and li = li and lis = lis])
    case (fail r)
    with Cons.prems assms(2) show ?thesis by auto
  next
    case list
    let ?L = "nk_loop 1 rec heap regf (secondary_offsets heap regf li)"
    from Cons.prems have "e \<in> set (fst (then_do ?L (ri_loop rec heap regf lis)))"
      unfolding list .
    then have "e \<in> set (fst ?L) \<or> e \<in> set (fst (ri_loop rec heap regf lis))"
      by (cases "snd ?L") (auto simp add: then_do_def)
    then show ?thesis
    proof
      assume "e \<in> set (fst ?L)"
      from nk_loop_events [OF this] show ?thesis by (auto simp add: map_filter_append)
    next
      assume "e \<in> set (fst (ri_loop rec heap regf lis))"
      from Cons.IH [OF this] show ?thesis by (auto simp add: map_filter_append)
    qed
  qed
qed

lemma fread_array_Done_length:
  "fread_array heap regf pos sz n = (out, Done items) \<Longrightarrow> length items = nat (sint n)"
  by (auto simp add: fread_array_def Let_def split: if_splits)

lemma subtree_body_ri:
  assumes nl: "\<not> is_leaf root"
    and lh: "fread_LH regf (unat (convOff (nk_subkeys root))) = Some lh"
    and ri: "lh_signature lh = sig_ri"
  obtains (fail) r where "snd r = Undefined \<or> (\<exists>c. snd r = Exit c)"
      and "\<And>rec. subtree_body rec heap regf root = r"
      and "\<And>e. e \<in> set (fst r) \<Longrightarrow> \<not> is_Warn e \<and> \<not> is_KeyName e"
  | (list) "\<And>rec. subtree_body rec heap regf root
        = ri_loop rec heap regf
            (list_offsets heap regf (unat (convOff (nk_subkeys root))) 4 (lh_num_entries lh))"
      and "subkey_offsets heap regf root
        = concat (map (secondary_offsets heap regf)
            (list_offsets heap regf (unat (convOff (nk_subkeys root))) 4 (lh_num_entries lh)))"
      and "length (list_offsets heap regf (unat (convOff (nk_subkeys root))) 4 (lh_num_entries lh))
        = nat (sint (lh_num_entries lh))"
proof -
  let ?pos = "unat (convOff (nk_subkeys root))"
  from nl have nl': "\<not> (nk_num_subkeys root = 0 \<or> nk_subkeys root = 0 \<or> nk_subkeys root = 0xFFFFFFFF)"
    by (simp add: is_leaf_def)
  have notlh: "\<not> (lh_signature lh = sig_lh \<or> lh_signature lh = sig_lf)"
    using ri by (simp add: sig_distinct)
  obtain out st where arr: "fread_array heap regf ?pos 4 (lh_num_entries lh) = (out, st)"
    by (cases "fread_array heap regf ?pos 4 (lh_num_entries lh)")
  have ev: "\<not> is_Warn e \<and> \<not> is_KeyName e" if "e \<in> set out" for e
    using fread_array_events [of e heap regf ?pos 4 "lh_num_entries lh"] that arr by simp
  show ?thesis
  proof (cases st)
    case (Done lis)
    then have out: "out = []" using arr fread_array_out by blast
    have lo: "list_offsets heap regf ?pos 4 (lh_num_entries lh) = map (\<lambda>e. u32_at e 0) lis"
      using arr Done by (simp add: list_offsets_def)
    have "subtree_body rec heap regf root
        = ri_loop rec heap regf (list_offsets heap regf ?pos 4 (lh_num_entries lh))" for rec
      using nl' lh notlh ri arr Done out by (simp add: subtree_body_def lo)
    moreover have "subkey_offsets heap regf root = concat (map (secondary_offsets heap regf)
        (list_offsets heap regf ?pos 4 (lh_num_entries lh)))"
      using nl lh notlh ri by (simp add: subkey_offsets_def)
    moreover have "length (list_offsets heap regf ?pos 4 (lh_num_entries lh))
        = nat (sint (lh_num_entries lh))"
      using fread_array_Done_length [OF arr [unfolded Done]] by (simp add: lo)
    ultimately show ?thesis by (rule list)
  next
    case (Exit c)
    with nl' lh notlh ri arr have "subtree_body rec heap regf root = (out, Exit c)" for rec
      by (simp add: subtree_body_def)
    then show ?thesis using ev by (intro fail [of "(out, Exit c)"]) simp_all
  next
    case Undefined
    with arr fread_array_not_undefined [of heap regf ?pos 4 "lh_num_entries lh"]
    show ?thesis by simp
  next
    case OutOfFuel
    with arr fread_array_not_fuel [of heap regf ?pos 4 "lh_num_entries lh"]
    show ?thesis by simp
  qed
qed

lemma secondary_length:
  assumes "snd (ri_loop rec heap regf (li # lis)) = Done ()"
    and lh2: "fread_LH regf (unat (convOff li)) = Some lh2"
  shows "length (secondary_offsets heap regf li) = nat (sint (lh_num_entries lh2))"
proof (cases "lh_signature lh2 = sig_lh \<or> lh_signature lh2 = sig_lf")
  case True
  obtain out st where arr:
    "fread_array heap regf (unat (convOff li)) 8 (lh_num_entries lh2) = (out, st)"
    by (cases "fread_array heap regf (unat (convOff li)) 8 (lh_num_entries lh2)")
  with assms True obtain items where st: "st = Done items"
    by (cases st) auto
  have "secondary_offsets heap regf li = map (\<lambda>e. u32_at e 0) items"
    using lh2 True arr st by (simp add: secondary_offsets_def list_offsets_def)
  with fread_array_Done_length [OF arr [unfolded st]] show ?thesis by simp
next
  case False
  with assms have li: "lh_signature lh2 = sig_li"
    by (auto split: if_splits)
  obtain out st where arr:
    "fread_array heap regf (unat (convOff li)) 4 (lh_num_entries lh2) = (out, st)"
    by (cases "fread_array heap regf (unat (convOff li)) 4 (lh_num_entries lh2)")
  with assms False li obtain items where st: "st = Done items"
    by (cases st) auto
  have "secondary_offsets heap regf li = map (\<lambda>e. u32_at e 0) items"
    using lh2 False li arr st by (simp add: secondary_offsets_def list_offsets_def)
  with fread_array_Done_length [OF arr [unfolded st]] show ?thesis by simp
qed

lemma secondary_lengths:
  assumes "snd (ri_loop rec heap regf lis) = Done ()" and "li \<in> set lis"
    and "fread_LH regf (unat (convOff li)) = Some lh2"
  shows "length (secondary_offsets heap regf li) = nat (sint (lh_num_entries lh2))"
  using assms(1,2)
proof (induction lis)
  case Nil
  then show ?case by simp
next
  case (Cons a lis)
  show ?case
  proof (cases "li = a")
    case True
    with Cons.prems(1) assms(3) show ?thesis by (simp only: secondary_length)
  next
    case False
    with Cons.prems(2) have "li \<in> set lis" by simp
    moreover from ri_loop_Cons_Done [OF Cons.prems(1)]
    have "snd (ri_loop rec heap regf lis) = Done ()" by simp
    ultimately show ?thesis using Cons.IH by simp
  qed
qed

lemma printSubTree_subkey_count:
  assumes "nk_num_subkeys root \<noteq> 0" and "c \<noteq> 0"
    and lh: "fread_LH regf (unat (convOff (nk_subkeys root))) = Some lh"
    and ri: "lh_signature lh = sig_ri"
  shows "printSubTree fuel heap regf (root\<lparr>nk_num_subkeys := c\<rparr>) level
       = printSubTree fuel heap regf root level"
proof (cases fuel)
  case 0
  then show ?thesis by simp
next
  case (Suc n)
  have "\<not> (lh_signature lh = sig_lh \<or> lh_signature lh = sig_lf)"
    using ri by (simp add: sig_distinct)
  then show ?thesis
    using assms unfolding Suc by (simp add: printNKName_def)
qed

text \<open>
  Claim C10. Let the subkey index of a key node be an \<open>ri\<close> record. Then the node's subkey
  count plays no part: with any other non-zero count the walk is the same. Every warning
  in the output of the walk was printed by the walk of one of the subkeys, none by the
  node itself. And when the walk completes, its output is the node's name followed by
  the output for the subkeys, which are the targets of the lists the \<open>ri\<close> record refers
  to, each list contributing as many entries as its own count says.
\<close>

theorem ri_path_never_compares_counts:
  assumes "\<not> is_leaf root"
    and "fread_LH regf (unat (convOff (nk_subkeys root))) = Some lh"
    and "lh_signature lh = sig_ri"
  shows "(c \<noteq> 0 \<longrightarrow>
            printSubTree fuel heap regf (root\<lparr>nk_num_subkeys := c\<rparr>) level
              = printSubTree fuel heap regf root level) \<and>
         (\<forall>e \<in> set (fst (printSubTree (Suc fuel) heap regf root level)). is_Warn e \<longrightarrow>
            (\<exists>k \<in> set (subkeys_of heap regf root).
               e \<in> set (fst (printSubTree fuel heap regf k (level + 1))))) \<and>
         (snd (printSubTree (Suc fuel) heap regf root level) = Done () \<longrightarrow>
            fst (printSubTree (Suc fuel) heap regf root level)
              = KeyName level (printed_name root)
                  # concat (map (\<lambda>k. fst (printSubTree fuel heap regf k (level + 1)))
                      (subkeys_of heap regf root)) \<and>
            subkey_offsets heap regf root
              = concat (map (secondary_offsets heap regf)
                  (list_offsets heap regf (unat (convOff (nk_subkeys root))) 4
                     (lh_num_entries lh))) \<and>
            (\<forall>li lh2.
               li \<in> set (list_offsets heap regf (unat (convOff (nk_subkeys root))) 4
                          (lh_num_entries lh)) \<and>
               fread_LH regf (unat (convOff li)) = Some lh2 \<longrightarrow>
               length (secondary_offsets heap regf li) = nat (sint (lh_num_entries lh2))))"
proof (intro conjI impI ballI allI)
  let ?rec = "\<lambda>next. printSubTree fuel heap regf next (level + 1)"
  let ?lis = "list_offsets heap regf (unat (convOff (nk_subkeys root))) 4 (lh_num_entries lh)"
  let ?f = "\<lambda>off. fread_NK heap regf (unat (convOff off))"
  show "printSubTree fuel heap regf (root\<lparr>nk_num_subkeys := c\<rparr>) level
      = printSubTree fuel heap regf root level" if "c \<noteq> 0"
    using assms that by (intro printSubTree_subkey_count) (simp_all add: is_leaf_def)
  have name: "\<not> is_Warn e" if "e \<in> set (fst (printNKName heap root level))" for e
    using that by (auto simp add: printNKName_def split: if_splits)
  have split: "e \<in> set (fst (printNKName heap root level))
      \<or> e \<in> set (fst (subtree_body ?rec heap regf root))"
    if "e \<in> set (fst (printSubTree (Suc fuel) heap regf root level))" for e
    using that unfolding printSubTree_body
    by (cases "snd (printNKName heap root level)") (auto simp add: then_do_def)
  show "\<exists>k \<in> set (subkeys_of heap regf root). e \<in> set (fst (?rec k))"
    if e: "e \<in> set (fst (printSubTree (Suc fuel) heap regf root level))" and w: "is_Warn e" for e
  proof -
    from split [OF e] name w have body: "e \<in> set (fst (subtree_body ?rec heap regf root))"
      by blast
    show ?thesis
    proof (rule subtree_body_ri [OF assms, where heap = heap])
      fix r :: run
      assume "\<And>rec. subtree_body rec heap regf root = r"
        and "\<And>e. e \<in> set (fst r) \<Longrightarrow> \<not> is_Warn e \<and> \<not> is_KeyName e"
      with body w show ?thesis by auto
    next
      assume eq: "\<And>rec. subtree_body rec heap regf root = ri_loop rec heap regf ?lis"
        and offs: "subkey_offsets heap regf root
          = concat (map (secondary_offsets heap regf) ?lis)"
      from body have "e \<in> set (fst (ri_loop ?rec heap regf ?lis))"
        unfolding eq .
      from ri_loop_events [OF this] w show ?thesis
        unfolding subkeys_of_def offs by blast
    qed
  qed
  assume fin: "snd (printSubTree (Suc fuel) heap regf root level) = Done ()"
  then have d: "snd (then_do (printNKName heap root level)
      (subtree_body ?rec heap regf root)) = Done ()"
    by (simp only: printSubTree_body)
  then have nameD: "snd (printNKName heap root level) = Done ()"
    and bodyD: "snd (subtree_body ?rec heap regf root) = Done ()"
    by (simp_all only: then_do_Done_iff)
  from nameD have pn: "printNKName heap root level = ([KeyName level (printed_name root)], Done ())"
    by (auto simp add: printNKName_def printed_name_def split: if_splits)
  have "subtree_body ?rec heap regf root = ri_loop ?rec heap regf ?lis
      \<and> subkey_offsets heap regf root = concat (map (secondary_offsets heap regf) ?lis)"
  proof (rule subtree_body_ri [OF assms, where heap = heap])
    fix r :: run
    assume "snd r = Undefined \<or> (\<exists>c. snd r = Exit c)"
      and "\<And>rec. subtree_body rec heap regf root = r"
    with bodyD show ?thesis by auto
  next
    assume "\<And>rec. subtree_body rec heap regf root = ri_loop rec heap regf ?lis"
      and "subkey_offsets heap regf root = concat (map (secondary_offsets heap regf) ?lis)"
    then show ?thesis by simp
  qed
  then have body: "subtree_body ?rec heap regf root = ri_loop ?rec heap regf ?lis"
    and offs: "subkey_offsets heap regf root = concat (map (secondary_offsets heap regf) ?lis)"
    by simp_all
  show "subkey_offsets heap regf root = concat (map (secondary_offsets heap regf) ?lis)"
    by (rule offs)
  from bodyD have loopD: "snd (ri_loop ?rec heap regf ?lis) = Done ()"
    unfolding body .
  from ri_loop_Done [OF loopD]
  have "fst (ri_loop ?rec heap regf ?lis)
      = concat (map (\<lambda>k. fst (?rec k)) (subkeys_of heap regf root))"
    unfolding subkeys_of_def offs by simp
  then show "fst (printSubTree (Suc fuel) heap regf root level)
      = KeyName level (printed_name root)
          # concat (map (\<lambda>k. fst (?rec k)) (subkeys_of heap regf root))"
    unfolding printSubTree_body pn body using loopD by (simp add: then_do_def)
  show "length (secondary_offsets heap regf li) = nat (sint (lh_num_entries lh2))"
    if "li \<in> set ?lis \<and> fread_LH regf (unat (convOff li)) = Some lh2" for li lh2
    using loopD that by (intro secondary_lengths [of ?rec heap regf ?lis]) simp_all
qed

lemma length_ri_hive: "length (ri_hive c) = 4440"
  by (simp add: ri_hive_def length_hive length_root_cell length_cell ri_record_def ri_first_def
      ri_second_def length_cell_A length_cell_B)

lemma ri_drop_record:
  "drop 4220 (ri_hive c)
     = ri_record @ cell 0xF0 ri_first 0 @ cell 0xF0 ri_second 4 @ cell_A @ cell_B"
  unfolding ri_hive_def by (simp add: drop_index)

lemma ri_drop_first:
  "drop 4236 (ri_hive c) = ri_first @ cell 0xF0 ri_second 4 @ cell_A @ cell_B"
proof -
  have "drop 4236 (ri_hive c) = drop 16 (drop 4220 (ri_hive c))" by simp
  then show ?thesis
    unfolding ri_drop_record by (simp add: ri_record_def drop_cell length_cell)
qed

lemma ri_drop_second:
  "drop 4252 (ri_hive c) = ri_second @ replicate 4 0 @ cell_A @ cell_B"
proof -
  have "drop 4252 (ri_hive c) = drop 16 (drop 4236 (ri_hive c))" by simp
  then show ?thesis
    unfolding ri_drop_first by (simp add: ri_first_def drop_cell length_cell)
qed

lemma ri_drop_A:
  "drop 4268 (ri_hive c) = nk_bytes 0x20 0 0 name_A @ replicate 7 0 @ cell_B"
proof -
  have "drop 4268 (ri_hive c) = drop 16 (drop 4252 (ri_hive c))" by simp
  then show ?thesis
    unfolding ri_drop_second by (simp add: ri_second_def drop_cell_A length_cell_A)
qed

lemma ri_drop_B:
  "drop 4356 (ri_hive c) = nk_bytes 0x20 0 0 name_B @ replicate 7 0"
proof -
  have "drop 4356 (ri_hive c) = drop 88 (drop 4268 (ri_hive c))" by simp
  then show ?thesis
    unfolding ri_drop_A by (simp add: length_nk_bytes name_A_def drop_cell_B)
qed

lemma ri_headers:
  "fread_LH (ri_hive c) 4220 = Some \<lparr> lh_signature = sig_ri, lh_num_entries = 2 \<rparr>"
  "fread_LH (ri_hive c) 4236 = Some \<lparr> lh_signature = sig_lh, lh_num_entries = 1 \<rparr>"
  "fread_LH (ri_hive c) 4252 = Some \<lparr> lh_signature = sig_li, lh_num_entries = 1 \<rparr>"
proof -
  have "drop 4220 (ri_hive c) = 0x72 # 0x69 # 2 # 0 # drop 4 ri_record
      @ cell 0xF0 ri_first 0 @ cell 0xF0 ri_second 4 @ cell_A @ cell_B"
    unfolding ri_drop_record by (simp add: ri_record_def)
  from fread_LH_drop [OF this]
  show "fread_LH (ri_hive c) 4220 = Some \<lparr> lh_signature = sig_ri, lh_num_entries = 2 \<rparr>"
    by (simp add: sig_ri_def le16_def)
  have "drop 4236 (ri_hive c) = 0x6C # 0x68 # 1 # 0 # drop 4 ri_first
      @ cell 0xF0 ri_second 4 @ cell_A @ cell_B"
    unfolding ri_drop_first by (simp add: ri_first_def)
  from fread_LH_drop [OF this]
  show "fread_LH (ri_hive c) 4236 = Some \<lparr> lh_signature = sig_lh, lh_num_entries = 1 \<rparr>"
    by (simp add: sig_lh_def le16_def)
  have "drop 4252 (ri_hive c) = 0x6C # 0x69 # 1 # 0 # drop 4 ri_second
      @ replicate 4 0 @ cell_A @ cell_B"
    unfolding ri_drop_second by (simp add: ri_second_def)
  from fread_LH_drop [OF this]
  show "fread_LH (ri_hive c) 4252 = Some \<lparr> lh_signature = sig_li, lh_num_entries = 1 \<rparr>"
    by (simp add: sig_li_def le16_def)
qed

lemma ri_entries:
  "u32_at (ri_hive c) 4224 = 0x88" "u32_at (ri_hive c) 4228 = 0x98"
  "u32_at (ri_hive c) 4240 = 0xA8" "u32_at (ri_hive c) 4256 = 0x100"
proof -
  have "drop 4224 (ri_hive c) = drop 4 (drop 4220 (ri_hive c))"
    and "drop 4228 (ri_hive c) = drop 8 (drop 4220 (ri_hive c))"
    and "drop 4240 (ri_hive c) = drop 4 (drop 4236 (ri_hive c))"
    and "drop 4256 (ri_hive c) = drop 4 (drop 4252 (ri_hive c))"
    by simp_all
  then have "drop 4224 (ri_hive c) = 0x88 # 0 # 0 # 0 # drop 8 ri_record
        @ cell 0xF0 ri_first 0 @ cell 0xF0 ri_second 4 @ cell_A @ cell_B"
    and "drop 4228 (ri_hive c) = 0x98 # 0 # 0 # 0
        # cell 0xF0 ri_first 0 @ cell 0xF0 ri_second 4 @ cell_A @ cell_B"
    and "drop 4240 (ri_hive c) = 0xA8 # 0 # 0 # 0 # drop 8 ri_first
        @ cell 0xF0 ri_second 4 @ cell_A @ cell_B"
    and "drop 4256 (ri_hive c) = 0x00 # 0x01 # 0 # 0 # replicate 4 0 @ cell_A @ cell_B"
    unfolding ri_drop_record ri_drop_first ri_drop_second
    by (simp_all add: ri_record_def ri_first_def ri_second_def)
  then show "u32_at (ri_hive c) 4224 = 0x88" "u32_at (ri_hive c) 4228 = 0x98"
    "u32_at (ri_hive c) 4240 = 0xA8" "u32_at (ri_hive c) 4256 = 0x100"
    by (simp_all add: u32_at_drop le32_def)
qed

lemma ri_kids:
  assumes "heap 80"
  shows "fread_NK heap (ri_hive c) 4268 = Some (nk_value 0x20 0 0 name_A)"
    and "fread_NK heap (ri_hive c) 4356 = Some (nk_value 0x20 0 0 name_B)"
proof -
  show "fread_NK heap (ri_hive c) 4268 = Some (nk_value 0x20 0 0 name_A)"
    by (rule fread_NK_drop [OF ri_drop_A]) (use assms in \<open>simp_all add: name_A_def length_cell_B\<close>)
  show "fread_NK heap (ri_hive c) 4356 = Some (nk_value 0x20 0 0 name_B)"
    by (rule fread_NK_drop [OF ri_drop_B]) (use assms in \<open>simp_all add: name_B_def\<close>)
qed

lemma upt_0_1: "[0..<1] = [0]"
  by simp

lemma ri_arrays:
  "fread_array heap_ptrdiff (ri_hive c) 4220 4 2
     = ([], Done (chop 4 2 (drop (4220 + 4) (ri_hive c))))"
  "fread_array heap_ptrdiff (ri_hive c) 4236 8 1
     = ([], Done (chop 8 1 (drop (4236 + 4) (ri_hive c))))"
  "fread_array heap_ptrdiff (ri_hive c) 4252 4 1
     = ([], Done (chop 4 1 (drop (4252 + 4) (ri_hive c))))"
  using fread_array_full [of 2 4 heap_ptrdiff 4220 "ri_hive c"]
    fread_array_full [of 1 8 heap_ptrdiff 4236 "ri_hive c"]
    fread_array_full [of 1 4 heap_ptrdiff 4252 "ri_hive c"]
  by (simp_all add: heap_ptrdiff_def length_ri_hive)

lemma ri_offsets:
  "map (\<lambda>e. u32_at e 0) (chop 4 2 (drop (4220 + 4) (ri_hive c))) = [0x88, 0x98]"
  "map (\<lambda>e. u32_at e 0) (chop 8 1 (drop (4236 + 4) (ri_hive c))) = [0xA8]"
  "map (\<lambda>e. u32_at e 0) (chop 4 1 (drop (4252 + 4) (ri_hive c))) = [0x100]"
proof -
  have "4220 + 4 + 4 * 2 \<le> length (ri_hive c)" "4236 + 4 + 8 * 1 \<le> length (ri_hive c)"
    "4252 + 4 + 4 * 1 \<le> length (ri_hive c)"
    by (simp_all add: length_ri_hive)
  note chop_offsets [OF this(1)] chop_offsets [OF this(2)] chop_offsets [OF this(3)]
  then show "map (\<lambda>e. u32_at e 0) (chop 4 2 (drop (4220 + 4) (ri_hive c))) = [0x88, 0x98]"
    "map (\<lambda>e. u32_at e 0) (chop 8 1 (drop (4236 + 4) (ri_hive c))) = [0xA8]"
    "map (\<lambda>e. u32_at e 0) (chop 4 1 (drop (4252 + 4) (ri_hive c))) = [0x100]"
    by (simp_all only: upt_0_2 upt_0_1 list.map) (simp_all add: ri_entries)
qed

lemma ri_lists:
  "list_offsets heap_ptrdiff (ri_hive c) 4220 4 2 = [0x88, 0x98]"
  "list_offsets heap_ptrdiff (ri_hive c) 4236 8 1 = [0xA8]"
  "list_offsets heap_ptrdiff (ri_hive c) 4252 4 1 = [0x100]"
  unfolding list_offsets_def ri_arrays by (simp_all only: snd_conv outcome.case ri_offsets)

lemma ri_secondary:
  "secondary_offsets heap_ptrdiff (ri_hive c) 0x88 = [0xA8]"
  "secondary_offsets heap_ptrdiff (ri_hive c) 0x98 = [0x100]"
  by (simp_all add: secondary_offsets_def convOff_def ri_headers sig_distinct ri_lists)

lemma ri_subkeys:
  "subkeys_of heap_ptrdiff (ri_hive 5) (root_key 5)
     = [nk_value 0x20 0 0 name_A, nk_value 0x20 0 0 name_B]"
proof -
  have nl: "\<not> is_leaf (root_key 5)"
    by (simp add: is_leaf_def root_key_fields)
  have h80: "heap_ptrdiff 80" by (simp add: heap_ptrdiff_def)
  have "subkey_offsets heap_ptrdiff (ri_hive 5) (root_key 5) = [0xA8, 0x100]"
    using nl by (simp add: subkey_offsets_def root_key_pos ri_headers sig_distinct
        ri_lists ri_secondary)
  then show ?thesis
    by (simp add: subkeys_of_def List.map_filter_def convOff_def ri_kids h80)
qed


lemma ri_loop_Cons_list:
  assumes "fread_LH regf (unat (convOff li)) = Some \<lparr> lh_signature = sg, lh_num_entries = n \<rparr>"
    and "(sg = sig_lh \<or> sg = sig_lf) \<and> sz = 8 \<or> sg = sig_li \<and> sz = 4"
    and "fread_array heap regf (unat (convOff li)) sz n = ([], Done items)"
  shows "ri_loop rec heap regf (li # lis)
       = then_do (nk_loop 1 rec heap regf (map (\<lambda>e. u32_at e 0) items))
           (ri_loop rec heap regf lis)"
  using assms by (auto simp add: sig_distinct sig_distinct [symmetric] comp_def)

lemma subtree_body_ri_list:
  assumes "\<not> is_leaf root"
    and "fread_LH regf (unat (convOff (nk_subkeys root)))
           = Some \<lparr> lh_signature = sig_ri, lh_num_entries = n \<rparr>"
    and "fread_array heap regf (unat (convOff (nk_subkeys root))) 4 n = ([], Done items)"
  shows "subtree_body rec heap regf root = ri_loop rec heap regf (map (\<lambda>e. u32_at e 0) items)"
  using assms by (simp add: subtree_body_def is_leaf_def sig_distinct)

lemma ri_walk:
  "printSubTree (Suc (Suc fuel)) heap_ptrdiff (ri_hive 5) (root_key 5) level
     = ([KeyName level name_ROOT, KeyName (level + 1) name_A, KeyName (level + 1) name_B],
        Done ())"
proof -
  let ?rec = "\<lambda>next. printSubTree (Suc fuel) heap_ptrdiff (ri_hive 5) next (level + 1)"
  let ?f = "ri_hive 5"
  have nl: "\<not> is_leaf (root_key 5)"
    by (simp add: is_leaf_def root_key_fields)
  have h80: "heap_ptrdiff 80" and h5: "heap_ptrdiff (unat (nk_name_len (root_key 5)) + 1)"
    by (simp_all add: heap_ptrdiff_def root_key_fields)
  have loops: "nk_loop 1 ?rec heap_ptrdiff ?f [0xA8] = ([KeyName (level + 1) name_A], Done ())"
    "nk_loop 1 ?rec heap_ptrdiff ?f [0x100] = ([KeyName (level + 1) name_B], Done ())"
    by (simp_all add: h80 convOff_def ri_kids leaf_A_walk [OF grants_small_ptrdiff]
        leaf_B_walk [OF grants_small_ptrdiff] del: printSubTree.simps)
  have c1: "unat (convOff 0x88) = 4236" and c2: "unat (convOff 0x98) = 4252"
    by (simp_all add: convOff_def)
  have first: "ri_loop ?rec heap_ptrdiff ?f (0x88 # lis)
      = then_do (nk_loop 1 ?rec heap_ptrdiff ?f [0xA8]) (ri_loop ?rec heap_ptrdiff ?f lis)" for lis
    using ri_loop_Cons_list [of ?f "0x88" sig_lh 1 8 heap_ptrdiff _ ?rec lis, unfolded c1,
        OF ri_headers(2) _ ri_arrays(2)]
    unfolding ri_offsets by simp
  have second: "ri_loop ?rec heap_ptrdiff ?f (0x98 # lis)
      = then_do (nk_loop 1 ?rec heap_ptrdiff ?f [0x100]) (ri_loop ?rec heap_ptrdiff ?f lis)" for lis
    using ri_loop_Cons_list [of ?f "0x98" sig_li 1 4 heap_ptrdiff _ ?rec lis, unfolded c2,
        OF ri_headers(3) _ ri_arrays(3)]
    unfolding ri_offsets by simp
  have body: "subtree_body ?rec heap_ptrdiff ?f (root_key 5)
      = ri_loop ?rec heap_ptrdiff ?f [0x88, 0x98]"
    using subtree_body_ri_list [of "root_key 5" ?f 2 heap_ptrdiff _ ?rec, unfolded root_key_pos,
        OF nl ri_headers(1) ri_arrays(1)]
    unfolding ri_offsets by simp
  have name: "printNKName heap_ptrdiff (root_key 5) level = ([KeyName level name_ROOT], Done ())"
    using h5 by (simp add: printNKName_ok root_key_fields)
  show ?thesis
    unfolding printSubTree_body [of "Suc fuel"] body first second loops name
    by simp
qed


theorem ri_path_never_compares_counts_witness:
  "fread_NK heap_ptrdiff (ri_hive 5) 4132 = Some (root_key 5) \<and>
   fread_LH (ri_hive 5) 4220 = Some \<lparr> lh_signature = sig_ri, lh_num_entries = 2 \<rparr> \<and>
   printSubTree 2 heap_ptrdiff (ri_hive 5) ((root_key 5)\<lparr>nk_num_subkeys := 2\<rparr>) 0
     = printSubTree 2 heap_ptrdiff (ri_hive 5) (root_key 5) 0 \<and>
   printSubTree 2 heap_ptrdiff (ri_hive 5) (root_key 5) 0
     = ([KeyName 0 name_ROOT, KeyName 1 name_A, KeyName 1 name_B], Done ()) \<and>
   subkeys_of heap_ptrdiff (ri_hive 5) (root_key 5)
     = [nk_value 0x20 0 0 name_A, nk_value 0x20 0 0 name_B] \<and>
   length (secondary_offsets heap_ptrdiff (ri_hive 5) 0x88) = 1"
proof -
  let ?lh = "\<lparr> lh_signature = sig_ri, lh_num_entries = 2 \<rparr>"
  let ?lh2 = "\<lparr> lh_signature = sig_lh, lh_num_entries = 1 \<rparr>"
  have root: "fread_NK heap_ptrdiff (ri_hive 5) 4132 = Some (root_key 5)"
    unfolding ri_hive_def by (rule fread_root) (simp add: heap_ptrdiff_def)
  have nl: "\<not> is_leaf (root_key 5)"
    by (simp add: is_leaf_def root_key_fields)
  have lh: "fread_LH (ri_hive 5) (unat (convOff (nk_subkeys (root_key 5)))) = Some ?lh"
    unfolding root_key_pos by (rule ri_headers(1))
  have sig: "lh_signature ?lh = sig_ri" by simp
  note inst = ri_path_never_compares_counts [OF nl lh sig, of 2 "Suc (Suc 0)" heap_ptrdiff 0]
  have walk: "printSubTree (Suc (Suc 0)) heap_ptrdiff (ri_hive 5) (root_key 5) 0
     = ([KeyName 0 name_ROOT, KeyName 1 name_A, KeyName 1 name_B], Done ())"
    using ri_walk [of 0 0] by simp
  from inst [THEN conjunct1]
  have same: "printSubTree (Suc (Suc 0)) heap_ptrdiff (ri_hive 5) ((root_key 5)\<lparr>nk_num_subkeys := 2\<rparr>) 0
     = printSubTree (Suc (Suc 0)) heap_ptrdiff (ri_hive 5) (root_key 5) 0"
    by simp
  have fin: "snd (printSubTree (Suc (Suc 0)) heap_ptrdiff (ri_hive 5) (root_key 5) 0) = Done ()"
    unfolding walk by simp
  have mem: "0x88 \<in> set (list_offsets heap_ptrdiff (ri_hive 5)
      (unat (convOff (nk_subkeys (root_key 5)))) 4 (lh_num_entries ?lh))"
    unfolding root_key_pos by (simp add: ri_lists)
  have lh2: "fread_LH (ri_hive 5) (unat (convOff 0x88)) = Some ?lh2"
    using ri_headers(2) [of 5] by (simp add: convOff_def)
  from ri_path_never_compares_counts [OF nl lh sig, of 2 "Suc 0" heap_ptrdiff 0,
      THEN conjunct2, THEN conjunct2, THEN mp, OF fin]
  have "length (secondary_offsets heap_ptrdiff (ri_hive 5) 0x88) = nat (sint (lh_num_entries ?lh2))"
    using mem lh2 by blast
  then have len: "length (secondary_offsets heap_ptrdiff (ri_hive 5) 0x88) = 1" by simp
  have two: "Suc (Suc 0) = 2" by simp
  from root same walk len show ?thesis
    unfolding two by (simp only: ri_headers ri_subkeys simp_thms)
qed

section \<open>Negative entry counts\<close>

lemma negative_headers:
  "fread_LH negative_ri_hive 4220 = Some \<lparr> lh_signature = sig_ri, lh_num_entries = - 1 \<rparr>"
  "fread_LH negative_lh_hive 4220 = Some \<lparr> lh_signature = sig_lh, lh_num_entries = - 1 \<rparr>"
proof -
  have eq: "negative_ri_hive = hive (root_cell 1 @ cell 0xF0 negative_ri 0 @ [])"
    "negative_lh_hive = hive (root_cell 1 @ cell 0xF0 negative_lh 0 @ [])"
    by (simp_all add: negative_ri_hive_def negative_lh_hive_def)
  have "drop 4220 negative_ri_hive = negative_ri" and "drop 4220 negative_lh_hive = negative_lh"
    unfolding eq by (simp_all only: drop_index) simp_all
  then have "drop 4220 negative_ri_hive = 0x72 # 0x69 # 0xFF # 0xFF # drop 4 negative_ri"
    and "drop 4220 negative_lh_hive = 0x6C # 0x68 # 0xFF # 0xFF # drop 4 negative_lh"
    by (simp_all add: negative_ri_def negative_lh_def)
  then show
    "fread_LH negative_ri_hive 4220 = Some \<lparr> lh_signature = sig_ri, lh_num_entries = - 1 \<rparr>"
    "fread_LH negative_lh_hive 4220 = Some \<lparr> lh_signature = sig_lh, lh_num_entries = - 1 \<rparr>"
    by (simp_all add: fread_LH_drop sig_ri_def sig_lh_def le16_def)
qed

lemma negative_root:
  "fread_NK heap_ptrdiff negative_ri_hive 4132 = Some (root_key 1)"
  "fread_NK heap_ptrdiff negative_lh_hive 4132 = Some (root_key 1)"
proof -
  have eq: "negative_ri_hive = hive (root_cell 1 @ cell 0xF0 negative_ri 0 @ [])"
    "negative_lh_hive = hive (root_cell 1 @ cell 0xF0 negative_lh 0 @ [])"
    by (simp_all add: negative_ri_hive_def negative_lh_hive_def)
  have h: "heap_ptrdiff 83" by (simp add: heap_ptrdiff_def)
  show "fread_NK heap_ptrdiff negative_ri_hive 4132 = Some (root_key 1)"
    unfolding eq using h by (rule fread_root)
  show "fread_NK heap_ptrdiff negative_lh_hive 4132 = Some (root_key 1)"
    unfolding eq using h by (rule fread_root)
qed

lemma then_do_assoc: "then_do (then_do a b) c = then_do a (then_do b c)"
  by (cases a; cases "snd a"; cases b; cases "snd b") (auto simp add: then_do_def)

lemma then_do_unit: "then_do ([], Done ()) b = b"
  by (simp add: then_do_def)

lemma ri_loop_append:
  "ri_loop rec heap regf (xs @ ys)
     = then_do (ri_loop rec heap regf xs) (ri_loop rec heap regf ys)"
proof (induction xs)
  case Nil
  show ?case by (simp add: then_do_unit)
next
  case (Cons x xs)
  show ?case
    by (simp add: Cons.IH then_do_assoc del: then_do_Done
        split: option.splits prod.splits outcome.splits)
qed

lemma uint_scast_negative:
  assumes "sint (n :: u16) < 0"
  shows "uint (scast n :: u64) = 2 ^ 64 + sint n"
proof -
  have ge: "- (2 ^ 15) \<le> sint n" using sint_ge [of n] by simp
  have s: "sint (scast n :: u64) = sint n"
    by (simp add: sint_up_scast is_up)
  have "uint (scast n :: u64) = take_bit LENGTH(64) (sint (scast n :: u64))"
    by (rule uint_sint)
  then have "uint (scast n :: u64) = (sint n) mod 2 ^ 64"
    unfolding s by (simp add: take_bit_eq_mod)
  also have "\<dots> = (sint n + 2 ^ 64) mod 2 ^ 64" by simp
  also have "\<dots> = sint n + 2 ^ 64"
    using ge assms by (intro mod_pos_pos_trivial) simp_all
  finally show ?thesis by simp
qed

lemma alloc_size_negative_count:
  assumes "sint (n :: u16) < 0" and "sz = 4 \<or> sz = 8"
  shows "int (alloc_size n sz) = 2 ^ 64 + int sz * sint n"
proof -
  have ge: "- (2 ^ 15) \<le> sint n" using sint_ge [of n] by simp
  have sz: "uint (of_nat sz :: u64) = int sz" using assms(2) by auto
  have "int (alloc_size n sz) = uint ((scast n :: u64) * of_nat sz)"
    by (simp add: alloc_size_def)
  also have "\<dots> = ((2 ^ 64 + sint n) * int sz) mod 2 ^ 64"
    by (simp add: uint_word_ariths uint_scast_negative [OF assms(1)] sz)
  also have "\<dots> = (2 ^ 64 + int sz * sint n) mod 2 ^ 64"
    by (simp add: algebra_simps mod_simps)
  also have "\<dots> = 2 ^ 64 + int sz * sint n"
    using ge assms by (intro mod_pos_pos_trivial) auto
  finally show ?thesis .
qed

lemma alloc_size_negative_large:
  assumes "sint (n :: u16) < 0" and "sz = 4 \<or> sz = 8"
  shows "2 ^ 63 \<le> alloc_size n sz"
proof -
  have ge: "- (2 ^ 15) \<le> sint n" using sint_ge [of n] by simp
  have "(2 :: int) ^ 63 \<le> 2 ^ 64 + int sz * sint n"
    using ge assms by auto
  then have "(2 :: int) ^ 63 \<le> int (alloc_size n sz)"
    by (simp only: alloc_size_negative_count [OF assms])
  then have "int (2 ^ 63) \<le> int (alloc_size n sz)" by simp
  then show ?thesis by (simp only: of_nat_le_iff)
qed


lemma fread_array_refused:
  assumes "\<And>m. 2 ^ 63 \<le> m \<Longrightarrow> \<not> heap m" and "sint n < 0" and "sz = 4 \<or> sz = 8"
  shows "fread_array heap regf pos sz n = ([], Exit 1)"
proof -
  have "\<not> heap (alloc_size n sz)"
    using assms(2,3) by (intro assms(1) alloc_size_negative_large)
  then show ?thesis by (simp add: fread_array_def)
qed

text \<open>
  Claim C3. The allocator is taken to refuse every request of \<open>2^63\<close> bytes or more, as
  every \<open>malloc\<close> does (a request above \<open>PTRDIFF_MAX\<close> fails). A list header with a
  negative entry count then ends the walk with \<open>exit(1)\<close> wherever it is met:
  \<^item> as the subkey index of a key node (an \<open>lh\<close> or \<open>lf\<close> list, by the test on line 159, or
    an \<open>ri\<close> record, by the refused \<open>malloc\<close> of line 210), the output is the line of the
    node's own name and nothing else;
  \<^item> as a list that an \<open>ri\<close> record refers to (\<open>lh\<close>, \<open>lf\<close> or \<open>li\<close>, by the refused
    \<open>malloc\<close> of lines 232 and 270), the loop over the \<open>ri\<close> entries ends there: what was
    printed for the earlier entries is all the output, whatever the recursive call does.

  No array sized by the count is allocated (both requests, of 4 and of 8 bytes for each
  entry, are refused), and no entry of the list is visited. On the \<open>ri\<close> path the program
  has no test of the count: the count is converted to \<open>size_t\<close>, and what stops the walk
  is the size of the request.
\<close>

theorem negative_count_is_fatal:
  assumes refuse: "\<And>m. 2 ^ 63 \<le> m \<Longrightarrow> \<not> heap m"
    and neg: "sint num_entries < 0"
    and lh: "fread_LH regf pos = Some \<lparr> lh_signature = s, lh_num_entries = num_entries \<rparr>"
  shows
    "(\<not> is_leaf root \<and> pos = unat (convOff (nk_subkeys root))
        \<and> (s = sig_lh \<or> s = sig_lf \<or> s = sig_ri) \<longrightarrow>
      printSubTree (Suc fuel) heap regf root level = (fst (printNKName heap root level), Exit 1)) \<and>
     (pos = unat (convOff li_offset) \<and> (s = sig_lh \<or> s = sig_lf \<or> s = sig_li) \<longrightarrow>
      ri_loop rec heap regf (earlier @ li_offset # later)
        = then_do (ri_loop rec heap regf earlier) ([], Exit 1)) \<and>
     \<not> heap (alloc_size num_entries 4) \<and> \<not> heap (alloc_size num_entries 8)"
proof (intro conjI impI)
  have arr: "fread_array heap regf p 4 num_entries = ([], Exit 1)"
    "fread_array heap regf p 8 num_entries = ([], Exit 1)" for p
    by (rule fread_array_refused [OF refuse neg], assumption, simp)+
  show "\<not> heap (alloc_size num_entries 4)"
    using neg by (intro refuse alloc_size_negative_large) simp_all
  show "\<not> heap (alloc_size num_entries 8)"
    using neg by (intro refuse alloc_size_negative_large) simp_all
  {
    assume a: "\<not> is_leaf root \<and> pos = unat (convOff (nk_subkeys root))
        \<and> (s = sig_lh \<or> s = sig_lf \<or> s = sig_ri)"
    then have lh': "fread_LH regf (unat (convOff (nk_subkeys root)))
        = Some \<lparr> lh_signature = s, lh_num_entries = num_entries \<rparr>"
      using lh by simp
    have "subtree_body rec' heap regf root = ([], Exit 1)" for rec'
      using a neg by (auto simp add: subtree_body_def is_leaf_def lh' arr sig_distinct)
    then show "printSubTree (Suc fuel) heap regf root level
        = (fst (printNKName heap root level), Exit 1)"
      unfolding printSubTree_body by (simp add: printNKName_def)
  }
  {
    assume a: "pos = unat (convOff li_offset) \<and> (s = sig_lh \<or> s = sig_lf \<or> s = sig_li)"
    then have lh': "fread_LH regf (unat (convOff li_offset))
        = Some \<lparr> lh_signature = s, lh_num_entries = num_entries \<rparr>"
      using lh by simp
    have "ri_loop rec heap regf (li_offset # later) = ([], Exit 1)"
      using a by (auto simp add: lh' arr sig_distinct sig_distinct [symmetric])
    then show "ri_loop rec heap regf (earlier @ li_offset # later)
        = then_do (ri_loop rec heap regf earlier) ([], Exit 1)"
      by (simp only: ri_loop_append)
  }
qed


lemma length_negative_li_hive: "length negative_li_hive = 4248"
  by (simp add: negative_li_hive_def length_hive length_root_cell length_cell ri_record_def
      negative_li_def)

lemma negative_li_drop:
  "drop 4220 negative_li_hive = ri_record @ cell 0xF0 negative_li 4"
  "drop 4236 negative_li_hive = negative_li @ replicate 4 0"
proof -
  have eq: "negative_li_hive = hive (root_cell 1 @ cell 0xF0 ri_record 0 @ cell 0xF0 negative_li 4)"
    by (simp add: negative_li_hive_def)
  show a: "drop 4220 negative_li_hive = ri_record @ cell 0xF0 negative_li 4"
    unfolding eq by (simp only: drop_index) simp
  have "drop 4236 negative_li_hive = drop 16 (drop 4220 negative_li_hive)" by simp
  then show "drop 4236 negative_li_hive = negative_li @ replicate 4 0"
    unfolding a by (simp add: ri_record_def drop_cell)
qed

lemma negative_li_headers:
  "fread_LH negative_li_hive 4220 = Some \<lparr> lh_signature = sig_ri, lh_num_entries = 2 \<rparr>"
  "fread_LH negative_li_hive 4236 = Some \<lparr> lh_signature = sig_li, lh_num_entries = - 1 \<rparr>"
proof -
  have "drop 4220 negative_li_hive
      = 0x72 # 0x69 # 2 # 0 # drop 4 ri_record @ cell 0xF0 negative_li 4"
    unfolding negative_li_drop by (simp add: ri_record_def)
  from fread_LH_drop [OF this]
  show "fread_LH negative_li_hive 4220 = Some \<lparr> lh_signature = sig_ri, lh_num_entries = 2 \<rparr>"
    by (simp add: sig_ri_def le16_def)
  have "drop 4236 negative_li_hive = 0x6C # 0x69 # 0xFF # 0xFF # drop 4 negative_li @ replicate 4 0"
    unfolding negative_li_drop by (simp add: negative_li_def)
  from fread_LH_drop [OF this]
  show "fread_LH negative_li_hive 4236 = Some \<lparr> lh_signature = sig_li, lh_num_entries = - 1 \<rparr>"
    by (simp add: sig_li_def le16_def)
qed

lemma negative_li_entries:
  "u32_at negative_li_hive 4224 = 0x88" "u32_at negative_li_hive 4228 = 0x98"
proof -
  have "drop 4224 negative_li_hive = drop 4 (drop 4220 negative_li_hive)"
    and "drop 4228 negative_li_hive = drop 8 (drop 4220 negative_li_hive)"
    by simp_all
  then have "drop 4224 negative_li_hive
        = 0x88 # 0 # 0 # 0 # drop 8 ri_record @ cell 0xF0 negative_li 4"
    and "drop 4228 negative_li_hive = 0x98 # 0 # 0 # 0 # cell 0xF0 negative_li 4"
    unfolding negative_li_drop by (simp_all add: ri_record_def)
  then show "u32_at negative_li_hive 4224 = 0x88" "u32_at negative_li_hive 4228 = 0x98"
    by (simp_all add: u32_at_drop le32_def)
qed

lemma negative_li_array:
  "fread_array heap_ptrdiff negative_li_hive 4220 4 2
     = ([], Done (chop 4 2 (drop (4220 + 4) negative_li_hive)))"
  "map (\<lambda>e. u32_at e 0) (chop 4 2 (drop (4220 + 4) negative_li_hive)) = [0x88, 0x98]"
proof -
  show "fread_array heap_ptrdiff negative_li_hive 4220 4 2
     = ([], Done (chop 4 2 (drop (4220 + 4) negative_li_hive)))"
    using fread_array_full [of 2 4 heap_ptrdiff 4220 negative_li_hive]
    by (simp add: heap_ptrdiff_def length_negative_li_hive)
  have "4220 + 4 + 4 * 2 \<le> length negative_li_hive"
    by (simp add: length_negative_li_hive)
  note chop_offsets [OF this]
  then show "map (\<lambda>e. u32_at e 0) (chop 4 2 (drop (4220 + 4) negative_li_hive)) = [0x88, 0x98]"
    by (simp only: upt_0_2 list.map) (simp add: negative_li_entries)
qed

lemma negative_li_root:
  "fread_NK heap_ptrdiff negative_li_hive 4132 = Some (root_key 1)"
proof -
  have eq: "negative_li_hive
      = hive (root_cell 1 @ cell 0xF0 ri_record 0 @ cell 0xF0 negative_li 4)"
    by (simp add: negative_li_hive_def)
  have "heap_ptrdiff 83" by (simp add: heap_ptrdiff_def)
  then show ?thesis unfolding eq by (rule fread_root)
qed

lemma heap_ptrdiff_refuses: "2 ^ 63 \<le> m \<Longrightarrow> \<not> heap_ptrdiff m"
  by (simp add: heap_ptrdiff_def)

theorem negative_count_is_fatal_witness:
  "\<not> (\<exists>m. 2 ^ 63 \<le> m \<and> heap_ptrdiff m) \<and>
   fread_NK heap_ptrdiff negative_lh_hive 4132 = Some (root_key 1) \<and>
   fread_LH negative_lh_hive 4220 = Some \<lparr> lh_signature = sig_lh, lh_num_entries = - 1 \<rparr> \<and>
   printSubTree 1 heap_ptrdiff negative_lh_hive (root_key 1) 0
     = ([KeyName 0 name_ROOT], Exit 1) \<and>
   fread_NK heap_ptrdiff negative_ri_hive 4132 = Some (root_key 1) \<and>
   fread_LH negative_ri_hive 4220 = Some \<lparr> lh_signature = sig_ri, lh_num_entries = - 1 \<rparr> \<and>
   printSubTree 1 heap_ptrdiff negative_ri_hive (root_key 1) 0
     = ([KeyName 0 name_ROOT], Exit 1) \<and>
   fread_NK heap_ptrdiff negative_li_hive 4132 = Some (root_key 1) \<and>
   fread_LH negative_li_hive 4220 = Some \<lparr> lh_signature = sig_ri, lh_num_entries = 2 \<rparr> \<and>
   fread_LH negative_li_hive 4236 = Some \<lparr> lh_signature = sig_li, lh_num_entries = - 1 \<rparr> \<and>
   printSubTree 1 heap_ptrdiff negative_li_hive (root_key 1) 0
     = ([KeyName 0 name_ROOT], Exit 1)"
proof -
  let ?rec = "\<lambda>f next. printSubTree 0 heap_ptrdiff f next (0 + 1)"
  have nl: "\<not> is_leaf (root_key 1)" by (simp add: is_leaf_def root_key_fields)
  have pos: "4220 = unat (convOff (nk_subkeys (root_key 1)))" by (simp add: root_key_pos)
  have sub: "4236 = unat (convOff 0x88)" by (simp add: convOff_def)
  have neg: "sint (- 1 :: u16) < 0" by simp
  have name: "printNKName heap_ptrdiff (root_key 1) 0 = ([KeyName 0 name_ROOT], Done ())"
    by (simp add: printNKName_ok root_key_fields heap_ptrdiff_def)
  from negative_count_is_fatal [OF heap_ptrdiff_refuses neg negative_headers(2),
      where root = "root_key 1" and fuel = 0 and level = 0, THEN conjunct1]
  have lh: "printSubTree (Suc 0) heap_ptrdiff negative_lh_hive (root_key 1) 0
      = ([KeyName 0 name_ROOT], Exit 1)"
    using nl pos by (simp add: name del: printSubTree.simps)
  from negative_count_is_fatal [OF heap_ptrdiff_refuses neg negative_headers(1),
      where root = "root_key 1" and fuel = 0 and level = 0, THEN conjunct1]
  have ri: "printSubTree (Suc 0) heap_ptrdiff negative_ri_hive (root_key 1) 0
      = ([KeyName 0 name_ROOT], Exit 1)"
    using nl pos by (simp add: name del: printSubTree.simps)
  from negative_count_is_fatal [OF heap_ptrdiff_refuses neg negative_li_headers(2),
      where li_offset = "0x88" and rec = "?rec negative_li_hive" and earlier = "[]"
        and later = "[0x98]", THEN conjunct2, THEN conjunct1]
  have loop: "ri_loop (?rec negative_li_hive) heap_ptrdiff negative_li_hive [0x88, 0x98]
      = ([], Exit 1)"
    using sub by (simp del: ri_loop.simps(2))
  have body: "subtree_body (?rec negative_li_hive) heap_ptrdiff negative_li_hive (root_key 1)
      = ri_loop (?rec negative_li_hive) heap_ptrdiff negative_li_hive [0x88, 0x98]"
    using subtree_body_ri_list [of "root_key 1" negative_li_hive 2 heap_ptrdiff _
        "?rec negative_li_hive", unfolded root_key_pos, OF nl negative_li_headers(1)
        negative_li_array(1)]
    unfolding negative_li_array(2) by simp
  have li: "printSubTree (Suc 0) heap_ptrdiff negative_li_hive (root_key 1) 0
      = ([KeyName 0 name_ROOT], Exit 1)"
    unfolding printSubTree_body body loop name by simp
  have r: "\<not> (\<exists>m. 2 ^ 63 \<le> m \<and> heap_ptrdiff m)" by (simp add: heap_ptrdiff_def)
  show ?thesis
    using lh ri li r
    by (simp only: negative_headers negative_li_headers negative_root negative_li_root
        One_nat_def simp_thms)
qed

section \<open>The root that the scan hands to the walk\<close>

text \<open>
  On the example hives the scan of \<open>main\<close> stops at the first cell, whose 84 bytes decode
  to \<open>root_key c\<close>: the walks above start from the key that \<open>main\<close> finds.
\<close>

lemma find_root_root_cell:
  "find_root (Suc n) heap (hive (root_cell c @ rest)) (scan_start (hive (root_cell c @ rest)))
     = (if heap 84 then Done (nk_bytes 0x2C c 0x78 name_ROOT @ replicate 4 0) else Exit 1)"
proof -
  let ?f = "hive (root_cell c @ rest)"
  let ?s = "\<lparr> sc_pos = 4128, sc_cell_size = - 1, sc_bh = Some hbin_header \<rparr>"
  let ?s2 = "\<lparr> sc_pos = 4132, sc_cell_size = le32 0xA8 0xFF 0xFF 0xFF, sc_bh = Some hbin_header \<rparr>"
  let ?buf = "nk_bytes 0x2C c 0x78 name_ROOT @ replicate 4 0"
  have skip: "skip_hbin ?f ?s = Some ?s" by (simp add: skip_hbin_off_boundary)
  have "root_cell c @ rest = 0xA8 # 0xFF # 0xFF # 0xFF # ?buf @ rest"
    by (simp add: root_cell_def cell_def)
  then have size: "fread_cell_size ?f ?s = Some ?s2"
    by (simp only: fread_cell_size_hive)
  have real: "cell_size_real (le32 0xA8 0xFF 0xFF 0xFF) = 84"
    by (simp add: cell_size_real_def le32_def)
  have buf: "take 84 (drop 4132 ?f) = ?buf"
    by (simp add: drop_root length_nk_bytes name_ROOT_def)
  have len: "length ?buf = 84" by (simp add: length_nk_bytes name_ROOT_def)
  have nk: "strncmp_nk ?buf = Some True" by (simp add: strncmp_nk_def nk_bytes_def)
  have ty: "sint (u16_at ?buf 2) = NK_ROOT"
    by (simp add: u16_at_def nk_bytes_def le16_def NK_ROOT_def)
  show ?thesis
    using len by (simp add: scan_start_hive skip size real buf nk ty Let_def length_nk_bytes)
qed

lemma NK_of_root_cell:
  "NK_of (nk_bytes 0x2C c 0x78 name_ROOT @ replicate 4 0) = root_key c"
  unfolding root_key_def by (rule NK_of_nk_bytes) (simp add: name_ROOT_def)

end
